theory Spec2Isabelle
  imports Main "HOL-Library.Word" "HOL-Library.Char_ord"
    "HOL-Library.Monad_Syntax"
begin

unbundle bit_operations_syntax

section \<open>Package mem: /proc/meminfo sampling (src/mem/meminfo.go)\<close>

text \<open>
  Go's \<open>[]byte\<close> is a list of \<^typ>\<open>char\<close> (a \<^typ>\<open>char\<close> is one byte), so that the
  labels and the example buffers can be written as string literals.  Go's \<open>int\<close>, \<open>int64\<close>
  and \<open>uint64\<close> are 64-bit words (the package reads /proc/meminfo, so it runs on Linux;
  the 64-bit ports are modelled): the conversions \<open>int(v)\<close> and \<open>int64(i)\<close> between them
  keep the 64 bits.  Indices into a buffer are natural numbers: they are bounded by the
  length of a buffer in memory, far below \<open>2^63\<close>.
\<close>

type_synonym bytes = "char list"
type_synonym int64 = "64 word"

subsection \<open>Errors\<close>

text \<open>
  \<open>strconv.ErrSyntax\<close> and \<open>strconv.ErrRange\<close> (wrapped in a \<open>*strconv.NumError\<close>),
  \<open>io.EOF\<close>, \<open>bufio.ErrBufferFull\<close>, and an error of the operating system
  (\<open>ioutil.ReadFile\<close>, \<open>os.Open\<close>).
\<close>

datatype goerr = ErrSyntax | ErrRange | EOF | ErrBufferFull | OSError

subsection \<open>The record\<close>

record Info =
  Timestamp :: int64
  MemTotal :: int64
  MemFree :: int64
  MemAvailable :: int64
  Buffers :: int64
  Cached :: int64
  SwapCached :: int64
  Active :: int64
  Inactive :: int64
  SwapTotal :: int64
  SwapFree :: int64

text \<open>The labels, lines 91 to 102.\<close>

definition memTotal :: bytes where "memTotal = ''MemTotal''"
definition memFree :: bytes where "memFree = ''MemFree''"
definition memAvailable :: bytes where "memAvailable = ''MemAvailable''"
definition buffers :: bytes where "buffers = ''Buffers''"
definition cached :: bytes where "cached = ''Cached''"
definition swapCached :: bytes where "swapCached = ''SwapCached''"
definition active :: bytes where "active = ''Active''"
definition inactive :: bytes where "inactive = ''Inactive''"
definition swapTotal :: bytes where "swapTotal = ''SwapTotal''"
definition swapFree :: bytes where "swapFree = ''SwapFree''"

subsection \<open>Library functions used by the parsers\<close>

text \<open>\<open>bytes.IndexByte(s, c)\<close>: the index of the first \<open>c\<close> in \<open>s\<close>, or \<open>-1\<close>.\<close>

fun IndexByte :: "bytes \<Rightarrow> char \<Rightarrow> int" where
  "IndexByte [] c = - 1"
| "IndexByte (x # xs) c =
     (if x = c then 0
      else (let r = IndexByte xs c in if r < 0 then - 1 else r + 1))"

text \<open>
  \<open>helpers.ParseUint\<close> (github.com/SermoDigital/helpers) is \<open>strconv.ParseUint(s, 10, 64)\<close>
  on a byte slice: an empty input or a byte that is no decimal digit is a syntax error,
  a value above \<open>2^64 - 1\<close> a range error.  The loop is the one of \<open>strconv\<close>: \<open>n\<close> is
  checked against the cutoff \<open>maxUint64/10 + 1\<close> before it is multiplied.
\<close>

definition maxUint64 :: nat where
  "maxUint64 = 2 ^ 64 - 1"

fun ParseUint_loop :: "bytes \<Rightarrow> nat \<Rightarrow> goerr + nat" where
  "ParseUint_loop [] n = Inr n"
| "ParseUint_loop (d # ds) n =
     (if \<not> (CHR ''0'' \<le> d \<and> d \<le> CHR ''9'') then Inl ErrSyntax
      else if n \<ge> maxUint64 div 10 + 1 then Inl ErrRange
      else (let n1 = n * 10 + (of_char d - of_char CHR ''0'')
            in if n1 > maxUint64 then Inl ErrRange else ParseUint_loop ds n1))"

definition ParseUint :: "bytes \<Rightarrow> goerr + int64" where
  "ParseUint s =
     (if length s < 1 then Inl ErrSyntax
      else (case ParseUint_loop s 0 of
              Inl err \<Rightarrow> Inl err
            | Inr n \<Rightarrow> Inr (word_of_nat n)))"

subsection \<open>GetInfo, lines 105 to 167\<close>

text \<open>
  The loop at lines 123 to 128, over \<open>buf[i+1:]\<close>: \<open>i\<close> is incremented for every byte
  looked at, the first byte that is no space included.
\<close>

fun skip_to_value :: "bytes \<Rightarrow> nat \<Rightarrow> nat" where
  "skip_to_value [] i = i"
| "skip_to_value (c # cs) i =
     (if c \<noteq> CHR '' '' then i + 1 else skip_to_value cs (i + 1))"

text \<open>The loop at lines 130 to 135, over \<open>buf[i:]\<close>.\<close>

fun skip_digits :: "bytes \<Rightarrow> nat \<Rightarrow> nat" where
  "skip_digits [] i = i"
| "skip_digits (c # cs) i =
     (if c > CHR ''9'' \<or> c < CHR ''0'' then i else skip_digits cs (i + 1))"

text \<open>The switch at lines 143 to 164; \<open>int(v)\<close> keeps the 64 bits of \<open>v\<close>.\<close>

definition GetInfo_switch :: "bytes \<Rightarrow> int64 \<Rightarrow> Info \<Rightarrow> Info" where
  "GetInfo_switch name v f =
     (if name = memTotal then f\<lparr>MemTotal := v\<rparr>
      else if name = memFree then f\<lparr>MemFree := v\<rparr>
      else if name = memAvailable then f\<lparr>MemAvailable := v\<rparr>
      else if name = buffers then f\<lparr>Buffers := v\<rparr>
      else if name = cached then f\<lparr>Cached := v\<rparr>
      else if name = swapCached then f\<lparr>SwapCached := v\<rparr>
      else if name = active then f\<lparr>Active := v\<rparr>
      else if name = inactive then f\<lparr>Inactive := v\<rparr>
      else if name = swapTotal then f\<lparr>SwapTotal := v\<rparr>
      else if name = swapFree then f\<lparr>SwapFree := v\<rparr>
      else f)"

text \<open>
  The loop at lines 114 to 165, with \<open>buf[a:]\<close> as \<open>drop a buf\<close> and \<open>buf[a:b]\<close> as
  \<open>take (b - a) (drop a buf)\<close>.  Every slice of the loop is in range (\<open>p \<le> i \<le> len(buf)\<close>
  throughout, and \<open>i + 1 \<le> len(buf)\<close> where a colon was found at \<open>i\<close>), so that no
  slice expression panics.  A failed conversion returns the error (line 138).
\<close>

function GetInfo_loop :: "bytes \<Rightarrow> nat \<Rightarrow> Info \<Rightarrow> goerr + Info" where
  "GetInfo_loop buf p f =
     (let off = IndexByte (drop p buf) CHR '':'' in
      if off < 0 then Inr f
      else
        (let i0 = p + nat off;
             name = take (i0 - p) (drop p buf);
             i1 = skip_to_value (drop (i0 + 1) buf) i0;
             p1 = i1;
             i2 = skip_digits (drop i1 buf) i1
         in case ParseUint (take (i2 - p1) (drop p1 buf)) of
              Inl err \<Rightarrow> Inl err
            | Inr v \<Rightarrow>
                GetInfo_loop buf
                  (nat (int i2 + IndexByte (drop i2 buf) CHR ''\<newline>'' + 1))
                  (GetInfo_switch name v f)))"
  by pat_completeness auto

lemma IndexByte_ge: "- 1 \<le> IndexByte s c"
  by (induction s) (auto simp: Let_def)

lemma IndexByte_lt: "0 \<le> IndexByte s c \<Longrightarrow> nat (IndexByte s c) < length s"
  by (induction s) (auto simp: Let_def split: if_splits)

lemma skip_to_value_ge: "i \<le> skip_to_value s i"
  by (induction s i rule: skip_to_value.induct) (auto intro: le_trans [rotated])

lemma skip_digits_ge: "i \<le> skip_digits s i"
  by (induction s i rule: skip_digits.induct) (auto intro: le_trans [rotated])

lemma ParseUint_Inr_nonempty: "ParseUint s = Inr v \<Longrightarrow> s \<noteq> []"
  by (auto simp: ParseUint_def)

text \<open>
  Every iteration that does not return moves \<open>p\<close> forward: the conversion succeeded, so
  the run of digits is not empty, and the run starts at or after the colon.
\<close>

lemma GetInfo_loop_advance:
  assumes off: "0 \<le> IndexByte (drop p buf) CHR '':''"
    and v: "ParseUint (take (skip_digits (drop i1 buf) i1 - i1) (drop i1 buf)) = Inr v"
    and i1: "i1 = skip_to_value (drop (p + nat (IndexByte (drop p buf) CHR '':'') + 1) buf)
                (p + nat (IndexByte (drop p buf) CHR '':''))"
  shows "length buf - nat (int (skip_digits (drop i1 buf) i1)
                           + IndexByte (drop (skip_digits (drop i1 buf) i1) buf) CHR ''\<newline>'' + 1)
         < length buf - p"
proof -
  let ?i2 = "skip_digits (drop i1 buf) i1"
  from IndexByte_lt [OF off] have p: "p < length buf" by simp
  from ParseUint_Inr_nonempty [OF v] have "i1 < ?i2" by (cases "?i2 - i1") auto
  moreover have "p \<le> i1" unfolding i1 using skip_to_value_ge le_add1 le_trans by blast
  moreover have "- 1 \<le> IndexByte (drop ?i2 buf) CHR ''\<newline>''" by (rule IndexByte_ge)
  ultimately show ?thesis using p by linarith
qed

termination GetInfo_loop
  apply (relation "measure (\<lambda>(buf, p, f). length buf - p)")
   apply simp
  apply (simp only: in_measure prod.case)
  apply (rule GetInfo_loop_advance)
    apply simp_all
  done

declare GetInfo_loop.simps [simp del]

text \<open>
  \<open>GetInfo\<close>: the result of \<open>ioutil.ReadFile\<close> and the clock reading
  \<open>time.Now().UTC().UnixNano()\<close> are the inputs.
\<close>

definition GetInfo :: "int64 \<Rightarrow> goerr + bytes \<Rightarrow> goerr + Info" where
  "GetInfo now file =
     (case file of
        Inl err \<Rightarrow> Inl err
      | Inr buf \<Rightarrow>
          GetInfo_loop buf 0
            \<lparr>Timestamp = now, MemTotal = 0, MemFree = 0, MemAvailable = 0, Buffers = 0,
             Cached = 0, SwapCached = 0, Active = 0, Inactive = 0, SwapTotal = 0,
             SwapFree = 0\<rparr>)"

section \<open>The codec: FlatBuffers\<close>

text \<open>
  Modelled from the spec: the FlatBuffers runtime (github.com/google/flatbuffers/go) and
  the accessors that its schema compiler generates for the table \<open>Data\<close> of package mem
  (\<open>DataStart\<close>, \<open>DataAddTimestamp\<close> ... \<open>DataAddSwapFree\<close>, \<open>DataEnd\<close>, \<open>GetRootAsData\<close> and
  the getters) are not under src/.  The spec describes the codec as a schema-described,
  little-endian, self-contained wire format whose fields are fixed when the schema is
  defined and default to zero; this is the FlatBuffers table format, modelled here byte
  for byte: a buffer starts with the 32-bit offset of the root table; a table starts with
  the signed 32-bit distance back to its vtable; the vtable holds its own size, the size
  of the table, and one 16-bit offset per field, zero for a field that was not written.

  The builder writes the buffer from its end towards its start.  \<open>Bytes\<close> is the part
  written so far (Go's \<open>b.Bytes[b.head:]\<close>), so that \<open>Offset\<close> is its length and
  prepending is consing; growing the underlying array is not modelled.  Offsets are far
  below \<open>2^32\<close> here and are natural numbers; they are cut to their width when they are
  written.  The assertions of the builder (not nested, \<open>off \<le> Offset()\<close> in
  \<open>PrependUOffsetT\<close>) hold on every call sequence of this package and are left out, as
  is the search for an equal vtable written before (the buffer holds one table).
\<close>

subsection \<open>Little-endian integers\<close>

fun le_bytes :: "nat \<Rightarrow> nat \<Rightarrow> bytes" where
  "le_bytes 0 n = []"
| "le_bytes (Suc k) n = char_of n # le_bytes k (n div 256)"

fun le_nat :: "bytes \<Rightarrow> nat" where
  "le_nat [] = 0"
| "le_nat (c # cs) = of_char c + 256 * le_nat cs"

definition SizeUOffsetT :: nat where "SizeUOffsetT = 4"
definition SizeSOffsetT :: nat where "SizeSOffsetT = 4"
definition SizeVOffsetT :: nat where "SizeVOffsetT = 2"
definition SizeInt64 :: nat where "SizeInt64 = 8"
definition VtableMetadataFields :: nat where "VtableMetadataFields = 2"

subsection \<open>The builder\<close>

record Builder =
  Bytes :: bytes
  minalign :: nat
  vtable :: "nat list"
  objectEnd :: nat

definition NewBuilder :: Builder where
  "NewBuilder = \<lparr>Bytes = [], minalign = 1, vtable = [], objectEnd = 0\<rparr>"

text \<open>\<open>Reset\<close> keeps the allocated array, which the model does not have.\<close>

definition Reset :: "Builder \<Rightarrow> Builder" where
  "Reset b = b\<lparr>Bytes := [], minalign := 1, vtable := []\<rparr>"

definition Offset :: "Builder \<Rightarrow> nat" where
  "Offset b = length (Bytes b)"

text \<open>
  \<open>Prep\<close> pads with zero bytes so that a value of \<open>sz\<close> bytes (Go's \<open>size\<close>) is aligned
  once \<open>additionalBytes\<close> more have been written.  Go computes
  \<open>(^(Offset + additionalBytes) + 1) & (size - 1)\<close>, which for a power of two \<open>size\<close> is
  the negated offset modulo \<open>size\<close>.
\<close>

definition Prep :: "nat \<Rightarrow> nat \<Rightarrow> Builder \<Rightarrow> Builder" where
  "Prep sz additionalBytes b =
     (let b1 = (if sz > minalign b then b\<lparr>minalign := sz\<rparr> else b);
          alignSize = (sz - (Offset b1 + additionalBytes) mod sz) mod sz
      in b1\<lparr>Bytes := replicate alignSize (CHR 0x00) @ Bytes b1\<rparr>)"

definition Place :: "nat \<Rightarrow> nat \<Rightarrow> Builder \<Rightarrow> Builder" where
  "Place sz x b = b\<lparr>Bytes := le_bytes sz x @ Bytes b\<rparr>"

definition PrependInt64 :: "int64 \<Rightarrow> Builder \<Rightarrow> Builder" where
  "PrependInt64 x b = Place SizeInt64 (unat x) (Prep SizeInt64 0 b)"

definition PrependVOffsetT :: "nat \<Rightarrow> Builder \<Rightarrow> Builder" where
  "PrependVOffsetT x b = Place SizeVOffsetT x (Prep SizeVOffsetT 0 b)"

definition PrependSOffsetT :: "nat \<Rightarrow> Builder \<Rightarrow> Builder" where
  "PrependSOffsetT x b = Place SizeSOffsetT x (Prep SizeSOffsetT 0 b)"

definition PrependUOffsetT :: "nat \<Rightarrow> Builder \<Rightarrow> Builder" where
  "PrependUOffsetT off b =
     (let b1 = Prep SizeUOffsetT 0 b;
          off2 = Offset b1 - off + SizeUOffsetT
      in Place SizeUOffsetT off2 b1)"

definition Slot :: "nat \<Rightarrow> Builder \<Rightarrow> Builder" where
  "Slot slotnum b = b\<lparr>vtable := (vtable b)[slotnum := Offset b]\<rparr>"

text \<open>A value equal to the default \<open>d\<close> is not written at all.\<close>

definition PrependInt64Slot :: "nat \<Rightarrow> int64 \<Rightarrow> int64 \<Rightarrow> Builder \<Rightarrow> Builder" where
  "PrependInt64Slot slotnum x d b =
     (if x \<noteq> d then Slot slotnum (PrependInt64 x b) else b)"

definition StartObject :: "nat \<Rightarrow> Builder \<Rightarrow> Builder" where
  "StartObject numfields b = b\<lparr>vtable := replicate numfields 0, objectEnd := Offset b\<rparr>"

text \<open>
  \<open>WriteVtable\<close>: the place of the vtable's distance, then the field offsets from the
  last to the first, the size of the table and the size of the vtable; at last the
  distance is written into its place, \<open>objectOffset\<close> bytes before the end.
\<close>

definition WriteVtable :: "Builder \<Rightarrow> Builder \<times> nat" where
  "WriteVtable b =
     (let b1 = PrependSOffsetT 0 b;
          objectOffset = Offset b1;
          b2 = foldr (\<lambda>e. PrependVOffsetT (if e \<noteq> 0 then objectOffset - e else 0))
                 (vtable b1) b1;
          objectSize = objectOffset - objectEnd b2;
          b3 = PrependVOffsetT objectSize b2;
          vBytes = (length (vtable b3) + VtableMetadataFields) * SizeVOffsetT;
          b4 = PrependVOffsetT vBytes b3;
          objectStart = length (Bytes b4) - objectOffset;
          b5 = b4\<lparr>Bytes := take objectStart (Bytes b4)
                          @ le_bytes SizeSOffsetT (Offset b4 - objectOffset)
                          @ drop (objectStart + SizeSOffsetT) (Bytes b4)\<rparr>
      in (b5\<lparr>vtable := []\<rparr>, objectOffset))"

definition EndObject :: "Builder \<Rightarrow> Builder \<times> nat" where
  "EndObject b = WriteVtable b"

definition Finish :: "Builder \<times> nat \<Rightarrow> Builder" where
  "Finish br =
     (case br of (b, rootTable) \<Rightarrow>
        PrependUOffsetT rootTable (Prep (minalign b) SizeUOffsetT b))"

subsection \<open>The generated builder functions of table Data\<close>

definition DataStart :: "Builder \<Rightarrow> Builder" where
  "DataStart builder = StartObject 11 builder"

definition DataAddTimestamp :: "Builder \<Rightarrow> int64 \<Rightarrow> Builder" where
  "DataAddTimestamp builder x = PrependInt64Slot 0 x 0 builder"
definition DataAddMemTotal :: "Builder \<Rightarrow> int64 \<Rightarrow> Builder" where
  "DataAddMemTotal builder x = PrependInt64Slot 1 x 0 builder"
definition DataAddMemFree :: "Builder \<Rightarrow> int64 \<Rightarrow> Builder" where
  "DataAddMemFree builder x = PrependInt64Slot 2 x 0 builder"
definition DataAddMemAvailable :: "Builder \<Rightarrow> int64 \<Rightarrow> Builder" where
  "DataAddMemAvailable builder x = PrependInt64Slot 3 x 0 builder"
definition DataAddBuffers :: "Builder \<Rightarrow> int64 \<Rightarrow> Builder" where
  "DataAddBuffers builder x = PrependInt64Slot 4 x 0 builder"
definition DataAddCached :: "Builder \<Rightarrow> int64 \<Rightarrow> Builder" where
  "DataAddCached builder x = PrependInt64Slot 5 x 0 builder"
definition DataAddSwapCached :: "Builder \<Rightarrow> int64 \<Rightarrow> Builder" where
  "DataAddSwapCached builder x = PrependInt64Slot 6 x 0 builder"
definition DataAddActive :: "Builder \<Rightarrow> int64 \<Rightarrow> Builder" where
  "DataAddActive builder x = PrependInt64Slot 7 x 0 builder"
definition DataAddInactive :: "Builder \<Rightarrow> int64 \<Rightarrow> Builder" where
  "DataAddInactive builder x = PrependInt64Slot 8 x 0 builder"
definition DataAddSwapTotal :: "Builder \<Rightarrow> int64 \<Rightarrow> Builder" where
  "DataAddSwapTotal builder x = PrependInt64Slot 9 x 0 builder"
definition DataAddSwapFree :: "Builder \<Rightarrow> int64 \<Rightarrow> Builder" where
  "DataAddSwapFree builder x = PrependInt64Slot 10 x 0 builder"

definition DataEnd :: "Builder \<Rightarrow> Builder \<times> nat" where
  "DataEnd builder = EndObject builder"

subsection \<open>Reading a table\<close>

text \<open>
  A read outside the buffer panics in Go (a slice or an index out of range): it is
  \<open>None\<close>.  \<open>UOffsetT\<close> is \<open>uint32\<close>: sums and differences of positions wrap at \<open>2^32\<close>.
\<close>

definition GetUint :: "nat \<Rightarrow> bytes \<Rightarrow> nat \<Rightarrow> nat option" where
  "GetUint sz buf off =
     (if off + sz \<le> length buf then Some (le_nat (take sz (drop off buf))) else None)"

record Table =
  tBytes :: bytes
  Pos :: nat

definition Table_Offset :: "Table \<Rightarrow> nat \<Rightarrow> nat option" where
  "Table_Offset t vtableOffset =
     do {
       soff \<leftarrow> GetUint SizeSOffsetT (tBytes t) (Pos t);
       let vtab = (Pos t + 2 ^ 32 - soff) mod 2 ^ 32;
       vsize \<leftarrow> GetUint SizeVOffsetT (tBytes t) vtab;
       if vtableOffset < vsize
       then GetUint SizeVOffsetT (tBytes t) ((vtab + vtableOffset) mod 2 ^ 32)
       else Some 0
     }"

definition Table_GetInt64 :: "Table \<Rightarrow> nat \<Rightarrow> int64 option" where
  "Table_GetInt64 t off = map_option word_of_nat (GetUint SizeInt64 (tBytes t) off)"

definition GetRootAsData :: "bytes \<Rightarrow> nat \<Rightarrow> Table option" where
  "GetRootAsData buf offset =
     do {
       n \<leftarrow> GetUint SizeUOffsetT buf offset;
       Some \<lparr>tBytes = buf, Pos = (n + offset) mod 2 ^ 32\<rparr>
     }"

text \<open>
  The generated getter of the field in vtable slot \<open>slotnum\<close>, whose entry is at
  \<open>4 + 2 * slotnum\<close> in the vtable; the default is \<open>0\<close>.
\<close>

definition Data_field :: "nat \<Rightarrow> Table \<Rightarrow> int64 option" where
  "Data_field slotnum rcv =
     do {
       off \<leftarrow> Table_Offset rcv (4 + 2 * slotnum);
       if off \<noteq> 0 then Table_GetInt64 rcv ((off + Pos rcv) mod 2 ^ 32) else Some 0
     }"

definition Data_Timestamp :: "Table \<Rightarrow> int64 option" where
  "Data_Timestamp = Data_field 0"
definition Data_MemTotal :: "Table \<Rightarrow> int64 option" where
  "Data_MemTotal = Data_field 1"
definition Data_MemFree :: "Table \<Rightarrow> int64 option" where
  "Data_MemFree = Data_field 2"
definition Data_MemAvailable :: "Table \<Rightarrow> int64 option" where
  "Data_MemAvailable = Data_field 3"
definition Data_Buffers :: "Table \<Rightarrow> int64 option" where
  "Data_Buffers = Data_field 4"
definition Data_Cached :: "Table \<Rightarrow> int64 option" where
  "Data_Cached = Data_field 5"
definition Data_SwapCached :: "Table \<Rightarrow> int64 option" where
  "Data_SwapCached = Data_field 6"
definition Data_Active :: "Table \<Rightarrow> int64 option" where
  "Data_Active = Data_field 7"
definition Data_Inactive :: "Table \<Rightarrow> int64 option" where
  "Data_Inactive = Data_field 8"
definition Data_SwapTotal :: "Table \<Rightarrow> int64 option" where
  "Data_SwapTotal = Data_field 9"
definition Data_SwapFree :: "Table \<Rightarrow> int64 option" where
  "Data_SwapFree = Data_field 10"

section \<open>Serialize and Deserialize, lines 49 to 85\<close>

text \<open>\<open>int64(i.MemTotal)\<close> and \<open>int(data.MemTotal())\<close> keep the 64 bits.\<close>

definition Serialize :: "Info \<Rightarrow> bytes" where
  "Serialize i =
     (let builder = NewBuilder;
          builder = DataStart builder;
          builder = DataAddTimestamp builder (Timestamp i);
          builder = DataAddMemTotal builder (MemTotal i);
          builder = DataAddMemFree builder (MemFree i);
          builder = DataAddMemAvailable builder (MemAvailable i);
          builder = DataAddBuffers builder (Buffers i);
          builder = DataAddCached builder (Cached i);
          builder = DataAddSwapCached builder (SwapCached i);
          builder = DataAddActive builder (Active i);
          builder = DataAddInactive builder (Inactive i);
          builder = DataAddSwapTotal builder (SwapTotal i);
          builder = DataAddSwapFree builder (SwapFree i);
          builder = Finish (DataEnd builder)
      in Bytes builder)"

text \<open>A panic of \<open>Deserialize\<close> is \<open>None\<close>.\<close>

definition Deserialize :: "bytes \<Rightarrow> Info option" where
  "Deserialize p =
     do {
       data \<leftarrow> GetRootAsData p 0;
       vTimestamp \<leftarrow> Data_Timestamp data;
       vMemTotal \<leftarrow> Data_MemTotal data;
       vMemFree \<leftarrow> Data_MemFree data;
       vMemAvailable \<leftarrow> Data_MemAvailable data;
       vBuffers \<leftarrow> Data_Buffers data;
       vCached \<leftarrow> Data_Cached data;
       vSwapCached \<leftarrow> Data_SwapCached data;
       vActive \<leftarrow> Data_Active data;
       vInactive \<leftarrow> Data_Inactive data;
       vSwapTotal \<leftarrow> Data_SwapTotal data;
       vSwapFree \<leftarrow> Data_SwapFree data;
       Some \<lparr>Timestamp = vTimestamp, MemTotal = vMemTotal, MemFree = vMemFree,
             MemAvailable = vMemAvailable, Buffers = vBuffers, Cached = vCached,
             SwapCached = vSwapCached, Active = vActive, Inactive = vInactive,
             SwapTotal = vSwapTotal, SwapFree = vSwapFree\<rparr>
     }"

section \<open>DataTicker, lines 190 to 322\<close>

subsection \<open>Library functions\<close>

text \<open>
  \<open>strconv.Atoi(s)\<close> is \<open>ParseInt(s, 10, 0)\<close>: an optional sign, then \<open>ParseUint\<close> on the
  rest, then the range of a 64-bit \<open>int\<close>.  (An error of \<open>ParseUint\<close> is a syntax error,
  returned as it is, or a range error, which the range checks below it return again.)
\<close>

definition Atoi :: "bytes \<Rightarrow> goerr + int64" where
  "Atoi s =
     (if length s = 0 then Inl ErrSyntax
      else
        (let neg = (hd s = CHR ''-'');
             s1 = (if hd s = CHR ''+'' \<or> hd s = CHR ''-'' then tl s else s)
         in case ParseUint s1 of
              Inl err \<Rightarrow> Inl err
            | Inr un \<Rightarrow>
                if \<not> neg \<and> unat un \<ge> 2 ^ 63 then Inl ErrRange
                else if neg \<and> unat un > 2 ^ 63 then Inl ErrRange
                else Inr (if neg then - un else un)))"

text \<open>
  \<open>bufio.Reader.ReadSlice('\n')\<close> on a reader of size 1536 (line 207; \<open>Reset\<close> keeps the
  size) whose source still holds \<open>rest\<close>: the line up to and including the first
  newline, if it is among the next 1536 bytes; \<open>ErrBufferFull\<close> if 1536 bytes without
  a newline are there; otherwise the end of the file, with what is left of it.  The
  source is read to its end without an error of its own.  The result is the slice, the
  error and what the reader still holds.
\<close>

definition ReadSlice :: "bytes \<Rightarrow> bytes \<times> goerr option \<times> bytes" where
  "ReadSlice rest =
     (let i = IndexByte (take 1536 rest) CHR ''\<newline>'' in
      if i \<ge> 0 then (take (nat i + 1) rest, None, drop (nat i + 1) rest)
      else if length rest \<ge> 1536 then (take 1536 rest, Some ErrBufferFull, drop 1536 rest)
      else (rest, Some EOF, []))"

subsection \<open>The state of the loop\<close>

text \<open>\<open>joe.Error{Type, Op, Err}\<close>.\<close>

datatype joeError = joe_Error string string goerr

text \<open>
  What the function does to its channels and its ticker, in order: a send on \<open>outCh\<close>, a
  send on \<open>errCh\<close>, \<open>close(outCh)\<close> and \<open>ticker.Stop()\<close>.  A send is taken by a receiver.
\<close>

datatype action = SendOut bytes | SendErr joeError | CloseOut | TickerStop

text \<open>
  The variables declared before the loop that live across lines and ticks (lines 195 to
  202): \<open>l\<close>, \<open>pos\<close>, \<open>val\<close> and \<open>bldr\<close>.  (\<open>i\<close>, \<open>v\<close>, \<open>name\<close> and \<open>t\<close> are assigned before
  they are read.)
\<close>

record ticker_state =
  t_l :: nat
  t_pos :: nat
  t_val :: bytes
  t_bldr :: Builder
  trace :: "action list"

text \<open>A Go panic ends the function; the state it leaves is kept for the deferred calls.\<close>

datatype outcome = Ok ticker_state | Panic ticker_state

subsection \<open>One line, lines 241 to 312\<close>

text \<open>
  Lines 242 to 248, over \<open>line\<close> from index \<open>i\<close>: the bytes before the colon are appended
  to \<open>val\<close>; \<open>pos\<close> is set only if there is a colon.
\<close>

fun grab_name :: "bytes \<Rightarrow> nat \<Rightarrow> bytes \<Rightarrow> nat \<Rightarrow> bytes \<times> nat" where
  "grab_name [] i val pos = (val, pos)"
| "grab_name (v # vs) i val pos =
     (if v = CHR 0x3A then (val, i + 1) else grab_name vs (i + 1) (val @ [v]) pos)"

text \<open>Lines 252 to 257, over \<open>line[pos:]\<close> from index \<open>i\<close>.\<close>

fun skip_spaces :: "bytes \<Rightarrow> nat \<Rightarrow> nat \<Rightarrow> nat" where
  "skip_spaces [] i pos = pos"
| "skip_spaces (v # vs) i pos =
     (if v \<noteq> CHR 0x20 then pos + i else skip_spaces vs (i + 1) pos)"

text \<open>Lines 260 to 265, over \<open>line[pos:]\<close>.\<close>

fun grab_numbers :: "bytes \<Rightarrow> bytes \<Rightarrow> bytes" where
  "grab_numbers [] val = val"
| "grab_numbers (v # vs) val =
     (if v = CHR 0x20 \<or> v = CHR 0x0D then val else grab_numbers vs (val @ [v]))"

text \<open>Lines 273 to 312; \<open>int64(i)\<close> keeps the 64 bits.\<close>

definition DataTicker_add :: "bytes \<Rightarrow> int64 \<Rightarrow> Builder \<Rightarrow> Builder" where
  "DataTicker_add name i b =
     (if name = ''MemTotal'' then DataAddMemTotal b i
      else if name = ''MemFree'' then DataAddMemFree b i
      else if name = ''MemAvailable'' then DataAddMemAvailable b i
      else if name = ''Buffers'' then DataAddBuffers b i
      else if name = ''Cached'' then DataAddMemAvailable b i
      else if name = ''SwapCached'' then DataAddSwapCached b i
      else if name = ''Active'' then DataAddActive b i
      else if name = ''Inactive'' then DataAddInactive b i
      else if name = ''SwapTotal'' then DataAddSwapTotal b i
      else if name = ''SwapFree'' then DataAddSwapFree b i
      else b)"

text \<open>
  The body of the loop from line 241 on.  \<open>line[pos:]\<close> at line 252 panics if \<open>pos\<close> is
  beyond the line, which a line without a colon can bring about, \<open>pos\<close> being that of an
  earlier line then.  After a failed conversion the loop continues at line 270, before
  \<open>val\<close> is emptied at line 272.
\<close>

definition DataTicker_line :: "bytes \<Rightarrow> ticker_state \<Rightarrow> outcome" where
  "DataTicker_line line st =
     (let (val1, pos1) = grab_name line 0 (t_val st) (t_pos st);
          name = val1;
          st1 = st\<lparr>t_pos := pos1, t_val := []\<rparr>
      in if pos1 > length line then Panic st1
         else
           (let pos2 = skip_spaces (drop pos1 line) 0 pos1;
                val2 = grab_numbers (drop pos2 line) []
            in case Atoi val2 of
                 Inl err \<Rightarrow>
                   Ok (st1\<lparr>t_pos := pos2, t_val := val2,
                           trace := trace st1 @ [SendErr (joe_Error ''mem'' ''convert to int'' err)]\<rparr>)
               | Inr i \<Rightarrow>
                   Ok (st1\<lparr>t_pos := pos2, t_val := [],
                           t_bldr := DataTicker_add name i (t_bldr st1)\<rparr>)))"

subsection \<open>The lines of one sample, lines 225 to 313\<close>

text \<open>\<open>rest\<close> is what the reader \<open>buf\<close> has not delivered yet.\<close>

function DataTicker_lines :: "bytes \<Rightarrow> ticker_state \<Rightarrow> outcome" where
  "DataTicker_lines rest st =
     (if t_l st = 16 then Ok st
      else
        (case ReadSlice rest of
           (line, Some err, rest') \<Rightarrow>
             if err = EOF then Ok st
             else Ok (st\<lparr>trace := trace st
                        @ [SendErr (joe_Error ''mem'' ''read command results'' err)]\<rparr>)
         | (line, None, rest') \<Rightarrow>
             (let st1 = st\<lparr>t_l := t_l st + 1\<rparr> in
              if t_l st1 > 8 \<and> t_l st1 < 15 then DataTicker_lines rest' st1
              else
                (case DataTicker_line line st1 of
                   Panic st2 \<Rightarrow> Panic st2
                 | Ok st2 \<Rightarrow> DataTicker_lines rest' st2))))"
  by pat_completeness auto

lemma ReadSlice_shorter:
  "ReadSlice rest = (line, None, rest') \<Longrightarrow> length rest' < length rest"
  by (auto simp: ReadSlice_def Let_def split: if_splits dest!: IndexByte_lt)

termination DataTicker_lines
  by (relation "measure (\<lambda>(rest, st). length rest)") (auto dest: ReadSlice_shorter [OF sym])

declare DataTicker_lines.simps [simp del]

subsection \<open>One tick, lines 214 to 320\<close>

text \<open>
  The inputs of a tick are the clock reading and the result of \<open>os.Open\<close>: an error, or
  the file, given by its content.
\<close>

definition DataTicker_tick :: "int64 \<Rightarrow> goerr + bytes \<Rightarrow> ticker_state \<Rightarrow> outcome" where
  "DataTicker_tick t file st =
     (case file of
        Inl err \<Rightarrow>
          Ok (st\<lparr>trace := trace st @ [SendErr (joe_Error ''mem'' ''open /proc/meminfo'' err)]\<rparr>)
      | Inr content \<Rightarrow>
          (let st1 = st\<lparr>t_bldr := DataAddTimestamp (DataStart (t_bldr st)) t\<rparr> in
           case DataTicker_lines content st1 of
             Panic st2 \<Rightarrow> Panic st2
           | Ok st2 \<Rightarrow>
               (let b = Finish (DataEnd (t_bldr st2));
                    data = Bytes b
                in Ok (st2\<lparr>trace := trace st2 @ [SendOut data],
                           t_bldr := Reset b, t_l := 0\<rparr>))))"

subsection \<open>The loop, lines 190 to 214\<close>




definition ticker_init :: ticker_state where
  "ticker_init = \<lparr>t_l = 0, t_pos = 0, t_val = [], t_bldr = NewBuilder, trace = []\<rparr>"


section \<open>Properties of the codec\<close>

subsection \<open>Little-endian integers are read back\<close>

lemma length_le_bytes [simp]: "length (le_bytes k n) = k"
  by (induction k arbitrary: n) auto

lemma le_nat_le_bytes: "le_nat (le_bytes k n) = n mod 256 ^ k"
proof (induction k arbitrary: n)
  case 0
  then show ?case by simp
next
  case (Suc k)
  have "le_nat (le_bytes (Suc k) n) = n mod 256 + 256 * ((n div 256) mod 256 ^ k)"
    by (simp add: Suc)
  also have "\<dots> = n mod (256 * 256 ^ k)"
    by (simp add: mod_mult2_eq)
  finally show ?case by simp
qed

lemma GetUint_at:
  "length pre = off \<Longrightarrow> n < 256 ^ k \<Longrightarrow> GetUint k (pre @ le_bytes k n @ post) off = Some n"
  by (simp add: GetUint_def le_nat_le_bytes)

text \<open>The fields written so far, as the getters will read them.\<close>

definition slot_ok :: "bytes \<Rightarrow> nat \<Rightarrow> int64 \<Rightarrow> bool" where
  "slot_ok bs e x \<longleftrightarrow>
     (if e = 0 then x = 0
      else 8 \<le> e \<and> e \<le> length bs \<and> take 8 (drop (length bs - e) bs) = le_bytes 8 (unat x))"

definition fb_inv :: "nat \<Rightarrow> Builder \<Rightarrow> (nat \<Rightarrow> int64) \<Rightarrow> bool" where
  "fb_inv n b m \<longleftrightarrow>
     length (vtable b) = 11 \<and> objectEnd b = 0 \<and> length (Bytes b) = 8 * n
     \<and> minalign b = (if n = 0 then 1 else 8)
     \<and> (\<forall>s<11. slot_ok (Bytes b) (vtable b ! s) (m s))"

lemma fb_inv_DataStart: "fb_inv 0 (DataStart NewBuilder) (\<lambda>s. 0)"
  by (simp add: fb_inv_def DataStart_def StartObject_def NewBuilder_def Offset_def slot_ok_def)

lemma slot_ok_prepend:
  "slot_ok bs e x \<Longrightarrow> slot_ok (pre @ bs) e x"
  by (auto simp: slot_ok_def)

lemma PrependInt64_Bytes:
  "8 dvd length (Bytes b) \<Longrightarrow> Bytes (PrependInt64 x b) = le_bytes 8 (unat x) @ Bytes b"
  by (auto simp: PrependInt64_def Place_def Prep_def Offset_def SizeInt64_def Let_def)

lemma PrependInt64_other:
  "vtable (PrependInt64 x b) = vtable b" "objectEnd (PrependInt64 x b) = objectEnd b"
  "minalign (PrependInt64 x b) = max 8 (minalign b)"
  by (auto simp: PrependInt64_def Place_def Prep_def Offset_def SizeInt64_def Let_def)

lemma fb_inv_PrependInt64Slot:
  assumes "fb_inv n b m" "slotnum < 11"
  shows "fb_inv (if x = 0 then n else Suc n) (PrependInt64Slot slotnum x 0 b)
           (if x = 0 then m else m(slotnum := x))"
proof (cases "x = 0")
  case True
  then show ?thesis using assms by (simp add: PrependInt64Slot_def)
next
  case False
  let ?b1 = "PrependInt64 x b"
  from assms have len: "length (Bytes b) = 8 * n" by (simp add: fb_inv_def)
  then have B: "Bytes ?b1 = le_bytes 8 (unat x) @ Bytes b"
    by (simp add: PrependInt64_Bytes)
  have "slot_ok (Bytes ?b1) ((vtable b)[slotnum := Offset ?b1] ! s) ((m(slotnum := x)) s)"
    if "s < 11" for s
  proof (cases "s = slotnum")
    case True
    then show ?thesis using assms that
      by (simp add: B Offset_def slot_ok_def fb_inv_def)
  next
    case False
    then show ?thesis using assms that
      by (simp add: B fb_inv_def slot_ok_prepend)
  qed
  then show ?thesis using assms False
    by (auto simp: PrependInt64Slot_def Slot_def fb_inv_def PrependInt64_other B len)
qed


lemma PrependVOffsetT_even:
  assumes "even (length (Bytes c))" "2 \<le> minalign c"
  shows "PrependVOffsetT x c = c\<lparr>Bytes := le_bytes 2 x @ Bytes c\<rparr>"
  using assms
  by (auto simp: PrependVOffsetT_def Place_def Prep_def Offset_def SizeVOffsetT_def Let_def
      mod_2_eq_odd)

lemma foldr_PrependVOffsetT:
  assumes "even (length (Bytes c))" "2 \<le> minalign c"
  shows "foldr (\<lambda>e. PrependVOffsetT (f e)) vt c
         = c\<lparr>Bytes := concat (map (\<lambda>e. le_bytes 2 (f e)) vt) @ Bytes c\<rparr>"
  using assms
proof (induction vt)
  case Nil
  then show ?case by simp
next
  case (Cons e vt)
  let ?c = "c\<lparr>Bytes := concat (map (\<lambda>e. le_bytes 2 (f e)) vt) @ Bytes c\<rparr>"
  have len: "length (concat (map (\<lambda>e. le_bytes 2 (f e)) vt)) = 2 * length vt"
    by (induction vt) auto
  have "even (length (Bytes ?c))" "2 \<le> minalign ?c"
    using Cons.prems by (auto simp: len)
  from PrependVOffsetT_even [OF this] show ?case
    using Cons by simp
qed

lemma length_concat_le_bytes [simp]:
  "length (concat (map (\<lambda>e. le_bytes k (f e)) vt)) = k * length vt"
  by (induction vt) auto

lemma PrependSOffsetT_aligned:
  assumes "4 dvd length (Bytes c)"
  shows "PrependSOffsetT x c = c\<lparr>minalign := max 4 (minalign c), Bytes := le_bytes 4 x @ Bytes c\<rparr>"
  using assms
  by (auto simp: PrependSOffsetT_def Place_def Prep_def Offset_def SizeSOffsetT_def Let_def max_def)

definition vt_entry :: "nat \<Rightarrow> nat \<Rightarrow> nat" where
  "vt_entry objectOffset e = (if e \<noteq> 0 then objectOffset - e else 0)"

lemma WriteVtable_Bytes:
  assumes "fb_inv n b m"
  shows "WriteVtable b =
     (b\<lparr>minalign := max 4 (minalign b),
        Bytes := le_bytes 2 26 @ le_bytes 2 (8 * n + 4)
                 @ concat (map (\<lambda>e. le_bytes 2 (if e \<noteq> 0 then 8 * n + 4 - e else 0)) (vtable b))
                 @ le_bytes 4 26 @ Bytes b,
        vtable := []\<rparr>, 8 * n + 4)"
proof -
  from assms have len: "length (Bytes b) = 8 * n" and vt: "length (vtable b) = 11"
    and oe: "objectEnd b = 0"
    by (simp_all add: fb_inv_def)
  let ?b1 = "b\<lparr>minalign := max 4 (minalign b), Bytes := le_bytes 4 0 @ Bytes b\<rparr>"
  have f1: "PrependSOffsetT 0 b = ?b1"
    by (rule PrependSOffsetT_aligned) (simp add: len)
  have f2: "Offset ?b1 = 8 * n + 4"
    by (simp add: Offset_def len)
  have f3: "vtable ?b1 = vtable b"
    by simp
  have ev: "even (length (Bytes ?b1))" "2 \<le> minalign ?b1"
    by (simp_all add: len)
  let ?f = "\<lambda>e. if e \<noteq> 0 then 8 * n + 4 - e else 0"
  let ?b2 = "?b1\<lparr>Bytes := concat (map (\<lambda>e. le_bytes 2 (?f e)) (vtable b)) @ Bytes ?b1\<rparr>"
  have f4: "foldr (\<lambda>e. PrependVOffsetT (?f e)) (vtable b) ?b1 = ?b2"
    by (rule foldr_PrependVOffsetT [OF ev])
  have f5: "8 * n + 4 - objectEnd ?b2 = 8 * n + 4"
    by (simp add: oe)
  let ?b3 = "?b2\<lparr>Bytes := le_bytes 2 (8 * n + 4) @ Bytes ?b2\<rparr>"
  have f6: "PrependVOffsetT (8 * n + 4) ?b2 = ?b3"
    by (rule PrependVOffsetT_even) (simp_all add: len vt)
  have f7: "(length (vtable ?b3) + VtableMetadataFields) * SizeVOffsetT = 26"
    by (simp add: vt VtableMetadataFields_def SizeVOffsetT_def)
  let ?b4 = "?b3\<lparr>Bytes := le_bytes 2 26 @ Bytes ?b3\<rparr>"
  have f8: "PrependVOffsetT 26 ?b3 = ?b4"
    by (rule PrependVOffsetT_even) (simp_all add: len vt)
  have f9: "length (Bytes ?b4) - (8 * n + 4) = 26" "Offset ?b4 - (8 * n + 4) = 26"
    by (simp_all add: len vt Offset_def)
  have f10: "take 26 (Bytes ?b4) @ le_bytes SizeSOffsetT 26 @ drop (26 + SizeSOffsetT) (Bytes ?b4)
     = le_bytes 2 26 @ le_bytes 2 (8 * n + 4)
                 @ concat (map (\<lambda>e. le_bytes 2 (?f e)) (vtable b))
                 @ le_bytes 4 26 @ Bytes b"
    by (simp add: len vt SizeSOffsetT_def)
  show ?thesis
    unfolding WriteVtable_def Let_def f1 f2 f3 f4 f5 f6 f7 f8 f9 f10
    by simp
qed

definition root_pad :: "nat \<Rightarrow> nat" where
  "root_pad n = (if n = 0 then 2 else 6)"

lemma Prep_pad:
  assumes "sz \<le> minalign c" "(sz - (length (Bytes c) + k) mod sz) mod sz = a"
  shows "Prep sz k c = c\<lparr>Bytes := replicate a (CHR 0x00) @ Bytes c\<rparr>"
  using assms by (simp add: Prep_def Let_def Offset_def)

lemma Finish_aligned:
  assumes len: "length (Bytes c) = 8 * n + 30"
    and ma: "minalign c = (if n = 0 then 4 else 8)"
  shows "Bytes (Finish (c, 8 * n + 4)) =
     le_bytes 4 (30 + root_pad n) @ replicate (root_pad n) (CHR 0x00) @ Bytes c"
proof -
  have pad: "(minalign c - (length (Bytes c) + SizeUOffsetT) mod minalign c) mod minalign c
             = root_pad n"
  proof (cases "n = 0")
    case True
    then have e: "minalign c = 4" "root_pad n = 2"
      by (simp_all add: ma root_pad_def)
    have "(8 * n + 30 + 4) mod 4 = (2::nat)" by presburger
    then show ?thesis
      unfolding e len SizeUOffsetT_def by simp
  next
    case False
    then have e: "minalign c = 8" "root_pad n = 6"
      by (simp_all add: ma root_pad_def)
    have "(8 * n + 30 + 4) mod 8 = (2::nat)" by presburger
    then show ?thesis
      unfolding e len SizeUOffsetT_def by simp
  qed
  define d where "d = c\<lparr>Bytes := replicate (root_pad n) (CHR 0x00) @ Bytes c\<rparr>"
  have g1: "Prep (minalign c) SizeUOffsetT c = d"
    unfolding d_def by (rule Prep_pad [OF _ pad]) simp
  have lend: "length (Bytes d) = 8 * n + 30 + root_pad n"
    by (simp add: d_def len)
  have "(8 * n + 30 + 2) mod 4 = (0::nat)" "(8 * n + 30 + 6) mod 4 = (0::nat)"
    by presburger+
  then have "(8 * n + 30 + root_pad n) mod 4 = 0"
    unfolding root_pad_def by (simp only: split: if_splits) simp
  then have "(SizeUOffsetT - (length (Bytes d) + 0) mod SizeUOffsetT) mod SizeUOffsetT = 0"
    unfolding SizeUOffsetT_def lend by simp
  then have g2: "Prep SizeUOffsetT 0 d = d\<lparr>Bytes := replicate 0 (CHR 0x00) @ Bytes d\<rparr>"
    by (rule Prep_pad [rotated]) (simp add: SizeUOffsetT_def d_def ma)
  then have g2': "Prep SizeUOffsetT 0 d = d"
    by simp
  have g3: "Offset d - (8 * n + 4) + SizeUOffsetT = 30 + root_pad n"
    by (simp add: Offset_def lend SizeUOffsetT_def)
  have "Finish (c, 8 * n + 4) = Place SizeUOffsetT (30 + root_pad n) d"
    by (simp add: Finish_def PrependUOffsetT_def g1 g2' Let_def g3)
  then show ?thesis
    by (simp add: Place_def SizeUOffsetT_def d_def)
qed

lemma Finish_Bytes:
  assumes "fb_inv n b m"
  shows "Bytes (Finish (DataEnd b)) =
     le_bytes 4 (30 + root_pad n) @ replicate (root_pad n) (CHR 0x00)
     @ le_bytes 2 26 @ le_bytes 2 (8 * n + 4)
     @ concat (map (\<lambda>e. le_bytes 2 (if e \<noteq> 0 then 8 * n + 4 - e else 0)) (vtable b))
     @ le_bytes 4 26 @ Bytes b"
proof -
  from assms have len: "length (Bytes b) = 8 * n" and vt: "length (vtable b) = 11"
    and ma: "minalign b = (if n = 0 then 1 else 8)"
    by (simp_all add: fb_inv_def)
  define V where "V = le_bytes 2 26 @ le_bytes 2 (8 * n + 4)
     @ concat (map (\<lambda>e. le_bytes 2 (if e \<noteq> 0 then 8 * n + 4 - e else 0)) (vtable b))
     @ le_bytes 4 26 @ Bytes b"
  define c where "c = b\<lparr>minalign := max 4 (minalign b), Bytes := V, vtable := []\<rparr>"
  have lenc: "length (Bytes c) = 8 * n + 30"
    by (simp add: c_def V_def len vt)
  have mc: "minalign c = (if n = 0 then 4 else 8)"
    by (simp add: c_def ma)
  have "DataEnd b = (c, 8 * n + 4)"
    unfolding DataEnd_def EndObject_def WriteVtable_Bytes [OF assms] c_def V_def ..
  then show ?thesis
    using Finish_aligned [OF lenc mc] by (simp add: c_def V_def)
qed

lemma GetUint_skip: "GetUint k (pre @ rest) (length pre + j) = GetUint k rest j"
  by (simp add: GetUint_def)

lemma GetUint_le_bytes: "n < 256 ^ k \<Longrightarrow> GetUint k (le_bytes k n @ post) 0 = Some n"
  by (simp add: GetUint_def le_nat_le_bytes)

lemma GetUint_vtable_entry:
  "s < length vt \<Longrightarrow> f (vt ! s) < 65536 \<Longrightarrow>
   GetUint 2 (concat (map (\<lambda>e. le_bytes 2 (f e)) vt) @ post) (2 * s) = Some (f (vt ! s))"
proof (induction vt arbitrary: s)
  case Nil
  then show ?case by simp
next
  case (Cons e vt)
  show ?case
  proof (cases s)
    case 0
    with Cons.prems show ?thesis
      using GetUint_le_bytes [of "f e" 2] by simp
  next
    case (Suc s')
    have "GetUint 2 (le_bytes 2 (f e) @ concat (map (\<lambda>e. le_bytes 2 (f e)) vt) @ post)
            (length (le_bytes 2 (f e)) + 2 * s')
          = GetUint 2 (concat (map (\<lambda>e. le_bytes 2 (f e)) vt) @ post) (2 * s')"
      by (rule GetUint_skip)
    with Cons Suc show ?thesis by simp
  qed
qed

lemma GetUint_field:
  assumes "slot_ok B e x" "e \<noteq> 0"
  shows "GetUint 8 (pre @ B) (length pre + (length B - e)) = Some (unat x)"
proof -
  from assms have e: "8 \<le> e" "e \<le> length B"
    and t: "take 8 (drop (length B - e) B) = le_bytes 8 (unat x)"
    by (simp_all add: slot_ok_def)
  have "unat x < 256 ^ 8"
    using unsigned_less [of x, where 'a = nat] by simp
  then have "le_nat (le_bytes 8 (unat x)) = unat x"
    by (simp add: le_nat_le_bytes)
  with e t show ?thesis
    unfolding GetUint_skip by (simp add: GetUint_def)
qed


lemma Data_read:
  assumes inv: "fb_inv n b m" and n: "n \<le> 8000" and s: "s < 11"
  shows "GetRootAsData (Bytes (Finish (DataEnd b))) 0
         = Some \<lparr>tBytes = Bytes (Finish (DataEnd b)), Pos = 30 + root_pad n\<rparr>"
    and "Data_field s \<lparr>tBytes = Bytes (Finish (DataEnd b)), Pos = 30 + root_pad n\<rparr> = Some (m s)"
proof -
  define a where "a = root_pad n"
  define e where "e = vtable b ! s"
  define enc where "enc = (\<lambda>e. if e \<noteq> 0 then 8 * n + 4 - e else 0)"
  define P0 where "P0 = le_bytes 4 (30 + a)"
  define P1 where "P1 = replicate a (CHR 0x00)"
  define P2 where "P2 = le_bytes 2 26"
  define P3 where "P3 = le_bytes 2 (8 * n + 4)"
  define VT where "VT = concat (map (\<lambda>e. le_bytes 2 (enc e)) (vtable b))"
  define S where "S = le_bytes 4 26"
  define B where "B = Bytes b"
  define buf where "buf = Bytes (Finish (DataEnd b))"
  have buf: "buf = P0 @ P1 @ P2 @ P3 @ VT @ S @ B"
    unfolding buf_def Finish_Bytes [OF inv] P0_def P1_def P2_def P3_def VT_def S_def B_def
      a_def enc_def by simp
  from inv s have vt: "length (vtable b) = 11" and lenB: "length B = 8 * n"
    and ok: "slot_ok B e (m s)"
    by (simp_all add: fb_inv_def B_def e_def)
  have a: "a = 2 \<or> a = 6" by (simp add: a_def root_pad_def)
  have lens: "length P0 = 4" "length P1 = a" "length P2 = 2" "length P3 = 2" "length VT = 22"
    "length S = 4"
    by (simp_all add: P0_def P1_def P2_def P3_def VT_def S_def vt)
  have e_le: "e \<noteq> 0 \<Longrightarrow> 8 \<le> e \<and> e \<le> 8 * n"
    using ok lenB by (simp add: slot_ok_def)
  have "8 * n + 4 - e < 65536"
    using n by linarith
  then have enc_lt: "enc e < 65536"
    by (simp add: enc_def)
  have r1: "GetUint 4 buf 0 = Some (30 + a)"
    unfolding buf P0_def using a by (intro GetUint_le_bytes) auto
  have r2: "GetUint 4 buf (30 + a) = Some 26"
  proof -
    have "GetUint 4 ((P0 @ P1 @ P2 @ P3 @ VT) @ S @ B) (length (P0 @ P1 @ P2 @ P3 @ VT) + 0)
          = GetUint 4 (S @ B) 0"
      by (rule GetUint_skip)
    moreover have "GetUint 4 (S @ B) 0 = Some 26"
      unfolding S_def by (rule GetUint_le_bytes) simp
    ultimately show ?thesis by (simp add: buf lens)
  qed
  have r3: "GetUint 2 buf (4 + a) = Some 26"
  proof -
    have "GetUint 2 ((P0 @ P1) @ P2 @ P3 @ VT @ S @ B) (length (P0 @ P1) + 0)
          = GetUint 2 (P2 @ P3 @ VT @ S @ B) 0"
      by (rule GetUint_skip)
    moreover have "GetUint 2 (P2 @ P3 @ VT @ S @ B) 0 = Some 26"
      unfolding P2_def by (rule GetUint_le_bytes) simp
    ultimately show ?thesis by (simp add: buf lens)
  qed
  have r4: "GetUint 2 buf (8 + a + 2 * s) = Some (enc e)"
  proof -
    have "GetUint 2 ((P0 @ P1 @ P2 @ P3) @ VT @ S @ B) (length (P0 @ P1 @ P2 @ P3) + 2 * s)
          = GetUint 2 (VT @ S @ B) (2 * s)"
      by (rule GetUint_skip)
    moreover have "GetUint 2 (VT @ S @ B) (2 * s) = Some (enc e)"
      unfolding VT_def e_def
      by (rule GetUint_vtable_entry) (use s vt enc_lt in \<open>simp_all add: e_def\<close>)
    ultimately show ?thesis by (simp add: buf lens add.assoc)
  qed
  have r5: "GetUint 8 buf (34 + a + (8 * n - e)) = Some (unat (m s))" if "e \<noteq> 0"
  proof -
    have "GetUint 8 ((P0 @ P1 @ P2 @ P3 @ VT @ S) @ B)
            (length (P0 @ P1 @ P2 @ P3 @ VT @ S) + (length B - e)) = Some (unat (m s))"
      by (rule GetUint_field [OF ok that])
    then show ?thesis by (simp add: buf lens lenB add.assoc)
  qed
  show "GetRootAsData (Bytes (Finish (DataEnd b))) 0
         = Some \<lparr>tBytes = Bytes (Finish (DataEnd b)), Pos = 30 + root_pad n\<rparr>"
    using r1 a unfolding buf_def [symmetric] a_def [symmetric]
    by (auto simp: GetRootAsData_def SizeUOffsetT_def)
  have p1: "(30 + a + 2 ^ 32 - 26) mod 2 ^ 32 = 4 + a"
    using a by auto
  have p2: "(4 + a + (4 + 2 * s)) mod 2 ^ 32 = 8 + a + 2 * s"
    using a s by auto
  have c1: "4 + 2 * s < (26::nat)"
    using s by simp
  have to: "Table_Offset \<lparr>tBytes = buf, Pos = 30 + a\<rparr> (4 + 2 * s) = Some (enc e)"
    unfolding Table_Offset_def SizeSOffsetT_def SizeVOffsetT_def Let_def
    by (simp only: Table.select_convs r2 Option.bind.bind_lunit p1 r3 p2 r4 c1 if_True)
  show "Data_field s \<lparr>tBytes = Bytes (Finish (DataEnd b)), Pos = 30 + root_pad n\<rparr> = Some (m s)"
  proof (cases "e = 0")
    case True
    with ok have "m s = 0" by (simp add: slot_ok_def)
    with True show ?thesis
      unfolding buf_def [symmetric] a_def [symmetric]
      by (simp add: Data_field_def to enc_def)
  next
    case False
    from e_le [OF False] n a have p3: "(enc e + (30 + a)) mod 2 ^ 32 = 34 + a + (8 * n - e)"
      by (auto simp: enc_def False)
    from p3 have p3': "(enc e + (30 + a)) mod 4294967296 = 34 + a + (8 * n - e)"
      by simp
    from e_le [OF False] have "enc e \<noteq> 0" by (simp add: enc_def False)
    then show ?thesis
      unfolding buf_def [symmetric] a_def [symmetric]
      by (simp add: Data_field_def to Table_GetInt64_def SizeInt64_def p3' r5 [OF False])
  qed
qed

definition fb_writes :: "nat \<Rightarrow> Builder \<Rightarrow> (nat \<Rightarrow> int64) \<Rightarrow> bool" where
  "fb_writes k b m \<longleftrightarrow> (\<exists>n\<le>k. fb_inv n b m)"

definition Info_of_slots :: "(nat \<Rightarrow> int64) \<Rightarrow> Info" where
  "Info_of_slots m =
     \<lparr>Timestamp = m 0, MemTotal = m 1, MemFree = m 2, MemAvailable = m 3, Buffers = m 4,
      Cached = m 5, SwapCached = m 6, Active = m 7, Inactive = m 8, SwapTotal = m 9,
      SwapFree = m 10\<rparr>"

lemma fb_writes_DataStart: "fb_writes 0 (DataStart NewBuilder) (\<lambda>s. 0)"
  using fb_inv_DataStart by (auto simp: fb_writes_def)

lemma fb_writes_PrependInt64Slot:
  assumes "fb_writes k b m" "slotnum < 11"
  shows "fb_writes (Suc k) (PrependInt64Slot slotnum x 0 b)
           (m(slotnum := if x = 0 then m slotnum else x))"
proof -
  from assms obtain n where n: "n \<le> k" "fb_inv n b m"
    by (auto simp: fb_writes_def)
  have "(if x = 0 then m else m(slotnum := x)) = m(slotnum := if x = 0 then m slotnum else x)"
    by auto
  with fb_inv_PrependInt64Slot [OF n(2) assms(2), of x] n(1) show ?thesis
    unfolding fb_writes_def by (intro exI [of _ "if x = 0 then n else Suc n"]) auto
qed

lemma Deserialize_Finish:
  assumes "fb_writes k b m" "k \<le> 8000"
  shows "Deserialize (Bytes (Finish (DataEnd b))) = Some (Info_of_slots m)"
proof -
  from assms obtain n where "n \<le> k" and inv: "fb_inv n b m"
    by (auto simp: fb_writes_def)
  with assms have n: "n \<le> 8000" by linarith
  have r1: "GetRootAsData (Bytes (Finish (DataEnd b))) 0
         = Some \<lparr>tBytes = Bytes (Finish (DataEnd b)), Pos = 30 + root_pad n\<rparr>"
    by (rule Data_read(1) [OF inv n, of 0]) simp
  note r = r1 Data_read(2) [OF inv n]
  show ?thesis
    unfolding Deserialize_def Data_Timestamp_def Data_MemTotal_def Data_MemFree_def
      Data_MemAvailable_def Data_Buffers_def Data_Cached_def Data_SwapCached_def
      Data_Active_def Data_Inactive_def Data_SwapTotal_def Data_SwapFree_def
    by (simp add: r Info_of_slots_def)
qed

lemmas DataAdd_defs = DataAddTimestamp_def DataAddMemTotal_def DataAddMemFree_def
  DataAddMemAvailable_def DataAddBuffers_def DataAddCached_def DataAddSwapCached_def
  DataAddActive_def DataAddInactive_def DataAddSwapTotal_def DataAddSwapFree_def

definition write_slot :: "Builder \<Rightarrow> nat \<times> int64 \<Rightarrow> Builder" where
  "write_slot b w = PrependInt64Slot (fst w) (snd w) 0 b"

definition set_slot :: "(nat \<Rightarrow> int64) \<Rightarrow> nat \<times> int64 \<Rightarrow> (nat \<Rightarrow> int64)" where
  "set_slot m w = m(fst w := if snd w = 0 then m (fst w) else snd w)"

lemma fb_writes_foldl:
  assumes "fb_writes k b m" "\<forall>w\<in>set ws. fst w < 11"
  shows "fb_writes (k + length ws) (foldl write_slot b ws) (foldl set_slot m ws)"
  using assms
proof (induction ws arbitrary: k b m)
  case Nil
  then show ?case by simp
next
  case (Cons w ws)
  from Cons.prems have "fb_writes (Suc k) (write_slot b w) (set_slot m w)"
    unfolding write_slot_def set_slot_def by (intro fb_writes_PrependInt64Slot) auto
  from Cons.IH [OF this] Cons.prems show ?case by simp
qed

lemma Deserialize_Serialize: "Deserialize (Serialize s) = Some s"
proof -
  define ws where "ws =
    [(0, Timestamp s), (1, MemTotal s), (2, MemFree s), (3, MemAvailable s), (4, Buffers s),
     (5, Cached s), (6, SwapCached s), (7, Active s), (8, Inactive s), (9, SwapTotal s),
     (10::nat, SwapFree s)]"
  define b where "b = foldl write_slot (DataStart NewBuilder) ws"
  have S: "Serialize s = Bytes (Finish (DataEnd b))"
    by (simp add: Serialize_def b_def ws_def Let_def write_slot_def DataAdd_defs)
  have "fb_writes (0 + length ws) b (foldl set_slot (\<lambda>s. 0) ws)"
    unfolding b_def by (rule fb_writes_foldl [OF fb_writes_DataStart]) (simp add: ws_def)
  then have "Deserialize (Bytes (Finish (DataEnd b))) = Some (Info_of_slots (foldl set_slot (\<lambda>s. 0) ws))"
    by (rule Deserialize_Finish) (simp add: ws_def)
  moreover have "Info_of_slots (foldl set_slot (\<lambda>s. 0) ws) = s"
    by (simp add: ws_def set_slot_def Info_of_slots_def)
  ultimately show ?thesis
    by (simp add: S)
qed

section \<open>Properties of GetInfo\<close>

lemma IndexByte_neg_iff: "IndexByte s c < 0 \<longleftrightarrow> c \<notin> set s"
  by (induction s) (auto simp: Let_def)

lemma IndexByte_first:
  "c \<notin> set xs \<Longrightarrow> IndexByte (xs @ c # ys) c = int (length xs)"
  by (induction xs) (auto simp: Let_def)

lemma skip_to_value_shift: "skip_to_value s (a + i) = a + skip_to_value s i"
  by (induction s i rule: skip_to_value.induct) (auto simp flip: add.assoc)

lemma skip_digits_shift: "skip_digits s (a + i) = a + skip_digits s i"
  by (induction s i rule: skip_digits.induct) (auto simp flip: add.assoc)

text \<open>
  One iteration of the loop of \<open>GetInfo\<close>, on \<open>s = buf[p:]\<close> and with indices from \<open>p\<close>:
  \<open>None\<close> if there is no colon, otherwise the error of the conversion, or the name, the
  value and the distance to the next line.
\<close>

definition line_step :: "bytes \<Rightarrow> (goerr + bytes \<times> int64 \<times> nat) option" where
  "line_step s =
     (let off = IndexByte s CHR '':'' in
      if off < 0 then None
      else
        (let i0 = nat off;
             i1 = skip_to_value (drop (i0 + 1) s) i0;
             i2 = skip_digits (drop i1 s) i1
         in Some (case ParseUint (take (i2 - i1) (drop i1 s)) of
                    Inl err \<Rightarrow> Inl err
                  | Inr v \<Rightarrow>
                      Inr (take i0 s, v,
                           nat (int i2 + IndexByte (drop i2 s) CHR ''\<newline>'' + 1)))))"

lemma GetInfo_loop_line_step:
  "GetInfo_loop buf p f =
     (case line_step (drop p buf) of
        None \<Rightarrow> Inr f
      | Some (Inl err) \<Rightarrow> Inl err
      | Some (Inr (name, v, k)) \<Rightarrow> GetInfo_loop buf (p + k) (GetInfo_switch name v f))"
proof -
  have n: "nat (int p + (int j + (r + 1))) = p + nat (int j + (r + 1))" if "- 1 \<le> r" for j r
    using that by linarith
  show ?thesis
    apply (subst GetInfo_loop.simps)
    apply (simp add: line_step_def Let_def skip_to_value_shift skip_digits_shift
        n [OF IndexByte_ge] add.commute [of _ p] add.assoc
        split: sum.splits)
    done
qed


lemma line_step_Inr:
  assumes "line_step s = Some (Inr (name, v, k))"
  shows "0 < k" "s \<noteq> []"
proof -
  define i0 where "i0 = nat (IndexByte s CHR '':'')"
  define i1 where "i1 = skip_to_value (drop (i0 + 1) s) i0"
  define i2 where "i2 = skip_digits (drop i1 s) i1"
  from assms have off: "\<not> IndexByte s CHR '':'' < 0"
    and pu: "ParseUint (take (i2 - i1) (drop i1 s)) = Inr v"
    and k: "k = nat (int i2 + IndexByte (drop i2 s) CHR ''\<newline>'' + 1)"
    by (auto simp: line_step_def Let_def i0_def i1_def i2_def split: if_splits sum.splits)
  from ParseUint_Inr_nonempty [OF pu] have "i1 < i2" by (cases "i2 - i1") auto
  moreover have "- 1 \<le> IndexByte (drop i2 s) CHR ''\<newline>''" by (rule IndexByte_ge)
  ultimately show "0 < k" unfolding k by linarith
  from off show "s \<noteq> []" by auto
qed

text \<open>The loop looks at \<open>buf[p:]\<close> only.\<close>

lemma GetInfo_loop_shift:
  "GetInfo_loop (pre @ buf) (length pre + p) f = GetInfo_loop buf p f"
proof (induction "length buf - p" arbitrary: p f rule: less_induct)
  case less
  show ?case
  proof (cases "line_step (drop p buf)")
    case None
    then show ?thesis
      by (subst GetInfo_loop_line_step, subst (2) GetInfo_loop_line_step) simp
  next
    case (Some r)
    show ?thesis
    proof (cases r)
      case (Inl err)
      with Some show ?thesis
        by (subst GetInfo_loop_line_step, subst (2) GetInfo_loop_line_step) simp
    next
      case (Inr t)
      obtain name v k where t: "t = (name, v, k)" by (cases t)
      from line_step_Inr [OF Some [unfolded Inr t]]
      have "length buf - (p + k) < length buf - p" by auto
      from less [OF this, of "GetInfo_switch name v f"] Some Inr t show ?thesis
        by (subst GetInfo_loop_line_step, subst (2) GetInfo_loop_line_step)
          (simp add: add.assoc)
    qed
  qed
qed

text \<open>
  A line of the form \<open>label: value tail\<close>: the label, a colon, spaces, the value, what
  follows it, and the newline.
\<close>

record kv_line =
  k_label :: bytes
  k_spaces :: nat
  k_value :: bytes
  k_tail :: bytes

definition render :: "kv_line \<Rightarrow> bytes" where
  "render m =
     k_label m @ '':'' @ replicate (k_spaces m) CHR '' '' @ k_value m @ k_tail m @ ''\<newline>''"

definition is_digit :: "char \<Rightarrow> bool" where
  "is_digit c \<longleftrightarrow> CHR ''0'' \<le> c \<and> c \<le> CHR ''9''"

text \<open>
  The value is the whole run of digits after the spaces (it may be empty), and the
  label holds no colon.
\<close>

definition line_shape :: "kv_line \<Rightarrow> bool" where
  "line_shape m \<longleftrightarrow>
     CHR '':'' \<notin> set (k_label m)
     \<and> list_all is_digit (k_value m)
     \<and> (k_tail m \<noteq> [] \<longrightarrow> \<not> is_digit (hd (k_tail m)))
     \<and> (k_value m = [] \<and> k_tail m \<noteq> [] \<longrightarrow> hd (k_tail m) \<noteq> CHR '' '')
     \<and> CHR ''\<newline>'' \<notin> set (k_tail m)"

lemma skip_to_value_spaces:
  "c \<noteq> CHR '' '' \<Longrightarrow> skip_to_value (replicate n CHR '' '' @ c # rest) i = i + n + 1"
  by (induction n arbitrary: i) auto

lemma skip_digits_run:
  "list_all is_digit ds \<Longrightarrow> rest = [] \<or> \<not> is_digit (hd rest) \<Longrightarrow>
   skip_digits (ds @ rest) i = i + length ds"
proof (induction ds arbitrary: i)
  case Nil
  then show ?case by (cases rest) (auto simp: is_digit_def not_le)
next
  case (Cons d ds)
  then show ?case by (auto simp: is_digit_def not_le)
qed

lemma line_step_render:
  assumes "line_shape m"
  shows "line_step (render m @ post) =
     Some (case ParseUint (k_value m) of
             Inl err \<Rightarrow> Inl err
           | Inr v \<Rightarrow> Inr (k_label m, v, length (render m)))"
proof -
  define L where "L = k_label m"
  define n where "n = k_spaces m"
  define V where "V = k_value m"
  define T where "T = k_tail m"
  define R where "R = V @ T @ ''\<newline>'' @ post"
  from assms have L: "CHR '':'' \<notin> set L" and V: "list_all is_digit V"
    and T1: "T \<noteq> [] \<Longrightarrow> \<not> is_digit (hd T)"
    and T2: "V = [] \<Longrightarrow> T \<noteq> [] \<Longrightarrow> hd T \<noteq> CHR '' ''"
    and T3: "CHR ''\<newline>'' \<notin> set T"
    by (simp_all add: line_shape_def L_def V_def T_def)
  have s: "render m @ post = L @ CHR '':'' # replicate n CHR '' '' @ R"
    by (simp add: render_def L_def n_def V_def T_def R_def)
  have off: "IndexByte (L @ CHR '':'' # replicate n CHR '' '' @ R) CHR '':'' = int (length L)"
    by (rule IndexByte_first [OF L])
  have "R \<noteq> []" by (simp add: R_def)
  then obtain c R' where R: "R = c # R'" by (cases R) auto
  have c: "c \<noteq> CHR '' ''"
  proof (cases V)
    case Nil
    show ?thesis
    proof (cases T)
      case Nil
      with \<open>V = []\<close> R show ?thesis by (auto simp: R_def)
    next
      case (Cons t T')
      with T2 \<open>V = []\<close> R show ?thesis by (auto simp: R_def)
    qed
  next
    case (Cons d V')
    with V R have "is_digit c" by (auto simp: R_def)
    then show ?thesis by (auto simp: is_digit_def)
  qed
  have d1: "drop (length L + 1) (L @ CHR '':'' # replicate n CHR '' '' @ R) = replicate n CHR '' '' @ R"
    by simp
  have i1: "skip_to_value (replicate n CHR '' '' @ R) (length L) = length L + n + 1"
    unfolding R by (rule skip_to_value_spaces [OF c])
  have d2: "drop (length L + n + 1) (L @ CHR '':'' # replicate n CHR '' '' @ R) = R"
    by simp
  have nd: "T @ ''\<newline>'' @ post = [] \<or> \<not> is_digit (hd (T @ ''\<newline>'' @ post))"
    using T1 by (cases T) (auto simp: is_digit_def)
  have i2: "skip_digits R (length L + n + 1) = length L + n + 1 + length V"
    unfolding R_def by (rule skip_digits_run [OF V nd])
  have tok: "take (length L + n + 1 + length V - (length L + n + 1)) R = V"
    by (simp add: R_def)
  have d3: "drop (length L + n + 1 + length V) (L @ CHR '':'' # replicate n CHR '' '' @ R)
            = T @ CHR ''\<newline>'' # post"
    by (simp add: R_def)
  have nl: "IndexByte (T @ CHR ''\<newline>'' # post) CHR ''\<newline>'' = int (length T)"
    by (rule IndexByte_first [OF T3])
  have k: "nat (int (length L + n + 1 + length V) + int (length T) + 1) = length (render m)"
    by (simp add: render_def L_def n_def V_def T_def)
  have nm: "take (length L) (L @ CHR '':'' # replicate n CHR '' '' @ R) = L"
    by simp
  show ?thesis
    unfolding s line_step_def Let_def off
    by (simp only: nat_int d1 i1 d2 i2 tok d3 nl k nm of_nat_less_0_iff if_False
        flip: L_def V_def)
qed

text \<open>The number that a run of decimal digits denotes, continuing from \<open>n\<close>.\<close>

fun decimal :: "nat \<Rightarrow> bytes \<Rightarrow> nat" where
  "decimal n [] = n"
| "decimal n (d # ds) = decimal (n * 10 + (of_char d - of_char CHR ''0'')) ds"

lemma decimal_ge: "n \<le> decimal n ds"
proof (induction ds arbitrary: n)
  case Nil
  then show ?case by simp
next
  case (Cons d ds)
  have "n \<le> n * 10 + (of_char d - of_char CHR ''0'')" by simp
  also have "\<dots> \<le> decimal (n * 10 + (of_char d - of_char CHR ''0'')) ds" by (rule Cons.IH)
  finally show ?case by simp
qed

lemma ParseUint_loop_digits:
  assumes "list_all is_digit ds" "n \<le> maxUint64"
  shows "ParseUint_loop ds n =
           (if decimal n ds \<le> maxUint64 then Inr (decimal n ds) else Inl ErrRange)"
  using assms
proof (induction ds arbitrary: n)
  case Nil
  then show ?case by simp
next
  case (Cons d ds)
  let ?n1 = "n * 10 + (of_char d - of_char CHR ''0'')"
  from Cons.prems have ds: "list_all is_digit ds" and "is_digit d"
    by simp_all
  then have d: "CHR ''0'' \<le> d \<and> d \<le> CHR ''9''"
    by (simp add: is_digit_def)
  then have dn: "(48::nat) \<le> of_char d"
    by (simp add: less_eq_char_def)
  show ?case
  proof (cases "n \<ge> maxUint64 div 10 + 1")
    case True
    then have "maxUint64 < ?n1" by (simp add: maxUint64_def)
    also have "?n1 \<le> decimal ?n1 ds" by (rule decimal_ge)
    finally show ?thesis using True d dn by simp
  next
    case False
    show ?thesis
    proof (cases "?n1 > maxUint64")
      case True
      also have "?n1 \<le> decimal ?n1 ds" by (rule decimal_ge)
      finally show ?thesis using False d dn \<open>?n1 > maxUint64\<close> by (simp add: Let_def)
    next
      case n1: False
      then have "?n1 \<le> maxUint64" by simp
      from Cons.IH [OF ds this] n1 False d dn show ?thesis by (simp add: Let_def)
    qed
  qed
qed


lemma ParseUint_digits:
  assumes "list_all is_digit ds"
  shows "ParseUint ds =
           (if ds = [] then Inl ErrSyntax
            else if decimal 0 ds \<le> maxUint64 then Inr (word_of_nat (decimal 0 ds))
            else Inl ErrRange)"
  using ParseUint_loop_digits [OF assms, of 0]
  by (cases ds) (simp_all add: ParseUint_def maxUint64_def)

text \<open>A line whose value converts, and the value.\<close>

definition wf_line :: "kv_line \<Rightarrow> bool" where
  "wf_line m \<longleftrightarrow> line_shape m \<and> k_value m \<noteq> [] \<and> decimal 0 (k_value m) \<le> maxUint64"

definition line_value :: "kv_line \<Rightarrow> int64" where
  "line_value m = word_of_nat (decimal 0 (k_value m))"

lemma GetInfo_loop_render:
  assumes "line_shape m"
  shows "GetInfo_loop (render m @ post) 0 f =
     (if k_value m = [] then Inl ErrSyntax
      else if decimal 0 (k_value m) \<le> maxUint64
      then GetInfo_loop post 0 (GetInfo_switch (k_label m) (line_value m) f)
      else Inl ErrRange)"
proof -
  from assms have "list_all is_digit (k_value m)" by (simp add: line_shape_def)
  note pu = ParseUint_digits [OF this]
  have "GetInfo_loop (render m @ post) (length (render m) + 0) f' = GetInfo_loop post 0 f'" for f'
    by (rule GetInfo_loop_shift)
  then show ?thesis
    by (subst GetInfo_loop_line_step) (simp add: line_step_render [OF assms] pu line_value_def)
qed

lemma GetInfo_loop_lines:
  assumes "\<forall>m\<in>set ms. wf_line m"
  shows "GetInfo_loop (concat (map render ms) @ post) 0 f =
         GetInfo_loop post 0 (foldl (\<lambda>f m. GetInfo_switch (k_label m) (line_value m) f) f ms)"
  using assms
proof (induction ms arbitrary: f)
  case Nil
  then show ?case by simp
next
  case (Cons m ms)
  then have m: "line_shape m" "k_value m \<noteq> []" "decimal 0 (k_value m) \<le> maxUint64"
    by (simp_all add: wf_line_def)
  have "GetInfo_loop (render m @ concat (map render ms) @ post) 0 f
        = GetInfo_loop (concat (map render ms) @ post) 0
            (GetInfo_switch (k_label m) (line_value m) f)"
    by (simp add: GetInfo_loop_render [OF m(1)] m)
  with Cons show ?case by simp
qed

text \<open>The ten labels, each with the field of the record that it names.\<close>

definition labelled_fields :: "(bytes \<times> (Info \<Rightarrow> int64)) list" where
  "labelled_fields =
     [(memTotal, MemTotal), (memFree, MemFree), (memAvailable, MemAvailable),
      (buffers, Buffers), (cached, Cached), (swapCached, SwapCached), (active, Active),
      (inactive, Inactive), (swapTotal, SwapTotal), (swapFree, SwapFree)]"

definition known_labels :: "bytes list" where
  "known_labels = map fst labelled_fields"

lemmas label_defs = memTotal_def memFree_def memAvailable_def buffers_def cached_def
  swapCached_def active_def inactive_def swapTotal_def swapFree_def

lemma GetInfo_switch_unknown:
  "name \<notin> set known_labels \<Longrightarrow> GetInfo_switch name v f = f"
  by (simp add: known_labels_def labelled_fields_def GetInfo_switch_def)

lemma GetInfo_switch_Timestamp [simp]:
  "Timestamp (GetInfo_switch name v f) = Timestamp f"
  by (simp add: GetInfo_switch_def)

lemma GetInfo_switch_field:
  "(lab, fld) \<in> set labelled_fields \<Longrightarrow> fld (GetInfo_switch name v f) = fld f \<or> name = lab"
  unfolding labelled_fields_def
  by (simp, elim disjE conjE) (simp_all add: GetInfo_switch_def)

lemma GetInfo_loop_no_colon:
  "CHR '':'' \<notin> set (drop p buf) \<Longrightarrow> GetInfo_loop buf p f = Inr f"
  by (subst GetInfo_loop.simps) (simp add: IndexByte_neg_iff)

lemmas GetInfo_eval = GetInfo_def GetInfo_loop.simps Let_def ParseUint_def maxUint64_def
  GetInfo_switch_def label_defs

text \<open>
  The names of the lines that the loop of \<open>GetInfo\<close> reaches from \<open>p\<close> on: the same
  loop, collecting \<open>name\<close> (line 121) in place of storing the value.
\<close>

function GetInfo_names :: "bytes \<Rightarrow> nat \<Rightarrow> bytes list" where
  "GetInfo_names buf p =
     (let off = IndexByte (drop p buf) CHR '':'' in
      if off < 0 then []
      else
        (let i0 = p + nat off;
             name = take (i0 - p) (drop p buf);
             i1 = skip_to_value (drop (i0 + 1) buf) i0;
             p1 = i1;
             i2 = skip_digits (drop i1 buf) i1
         in case ParseUint (take (i2 - p1) (drop p1 buf)) of
              Inl err \<Rightarrow> [name]
            | Inr v \<Rightarrow>
                name # GetInfo_names buf
                         (nat (int i2 + IndexByte (drop i2 buf) CHR ''\<newline>'' + 1))))"
  by pat_completeness auto

termination GetInfo_names
  apply (relation "measure (\<lambda>(buf, p). length buf - p)")
   apply simp
  apply (simp only: in_measure prod.case)
  apply (rule GetInfo_loop_advance)
    apply simp_all
  done

declare GetInfo_names.simps [simp del]

lemma GetInfo_names_line_step:
  "GetInfo_names buf p =
     (case line_step (drop p buf) of
        None \<Rightarrow> []
      | Some (Inl err) \<Rightarrow> [take (nat (IndexByte (drop p buf) CHR '':'')) (drop p buf)]
      | Some (Inr (name, v, k)) \<Rightarrow> name # GetInfo_names buf (p + k))"
proof -
  have n: "nat (int p + (int j + (r + 1))) = p + nat (int j + (r + 1))" if "- 1 \<le> r" for j r
    using that by linarith
  show ?thesis
    apply (subst GetInfo_names.simps)
    apply (simp add: line_step_def Let_def skip_to_value_shift skip_digits_shift
        n [OF IndexByte_ge] add.commute [of _ p] add.assoc
        split: sum.splits)
    done
qed

lemma GetInfo_loop_unnamed:
  assumes "GetInfo_loop buf p f = Inr r" "(lab, fld) \<in> set labelled_fields"
    and "lab \<notin> set (GetInfo_names buf p)"
  shows "fld r = fld f"
  using assms(1,3)
proof (induction "length buf - p" arbitrary: p f rule: less_induct)
  case less
  show ?case
  proof (cases "line_step (drop p buf)")
    case None
    with less.prems show ?thesis
      by (subst (asm) GetInfo_loop_line_step) simp
  next
    case (Some res)
    show ?thesis
    proof (cases res)
      case (Inl err)
      with Some less.prems show ?thesis
        by (subst (asm) GetInfo_loop_line_step) simp
    next
      case (Inr t)
      obtain name v k where t: "t = (name, v, k)" by (cases t)
      note st = Some [unfolded Inr t]
      from line_step_Inr [OF st] have dec: "length buf - (p + k) < length buf - p" by auto
      from less.prems(1) st have l: "GetInfo_loop buf (p + k) (GetInfo_switch name v f) = Inr r"
        by (subst (asm) GetInfo_loop_line_step) simp
      from less.prems(2) st have n: "name \<noteq> lab" "lab \<notin> set (GetInfo_names buf (p + k))"
        by (subst (asm) GetInfo_names_line_step, auto)+
      from less.hyps [OF dec l n(2)] have "fld r = fld (GetInfo_switch name v f)" .
      with GetInfo_switch_field [OF assms(2), of name v f] n(1) show ?thesis by auto
    qed
  qed
qed

lemma GetInfo_names_shift:
  "GetInfo_names (pre @ buf) (length pre + p) = GetInfo_names buf p"
proof (induction "length buf - p" arbitrary: p rule: less_induct)
  case less
  show ?case
  proof (cases "line_step (drop p buf)")
    case None
    then show ?thesis
      by (subst GetInfo_names_line_step, subst (2) GetInfo_names_line_step) simp
  next
    case (Some r)
    show ?thesis
    proof (cases r)
      case (Inl err)
      with Some show ?thesis
        by (subst GetInfo_names_line_step, subst (2) GetInfo_names_line_step) simp
    next
      case (Inr t)
      obtain name v k where t: "t = (name, v, k)" by (cases t)
      from line_step_Inr [OF Some [unfolded Inr t]]
      have "length buf - (p + k) < length buf - p" by auto
      from less [OF this] Some Inr t show ?thesis
        by (subst GetInfo_names_line_step, subst (2) GetInfo_names_line_step)
          (simp add: add.assoc)
    qed
  qed
qed

lemma GetInfo_names_lines:
  assumes "\<forall>m\<in>set ms. wf_line m"
  shows "GetInfo_names (concat (map render ms) @ post) 0 = map k_label ms @ GetInfo_names post 0"
  using assms
proof (induction ms)
  case Nil
  then show ?case by simp
next
  case (Cons m ms)
  then have m: "line_shape m" "k_value m \<noteq> []" "decimal 0 (k_value m) \<le> maxUint64"
    by (simp_all add: wf_line_def)
  from m(1) have "list_all is_digit (k_value m)" by (simp add: line_shape_def)
  note pu = ParseUint_digits [OF this]
  have sh: "GetInfo_names (render m @ concat (map render ms) @ post) (length (render m) + 0)
        = GetInfo_names (concat (map render ms) @ post) 0"
    by (rule GetInfo_names_shift)
  have "GetInfo_names (render m @ concat (map render ms) @ post) 0
        = k_label m # GetInfo_names (concat (map render ms) @ post) 0"
    using sh by (subst GetInfo_names_line_step) (simp add: line_step_render [OF m(1)] pu m)
  with Cons show ?case by simp
qed

lemma GetInfo_names_no_colon:
  "CHR '':'' \<notin> set (drop p buf) \<Longrightarrow> GetInfo_names buf p = []"
  by (subst GetInfo_names.simps) (simp add: IndexByte_neg_iff)

section \<open>Properties of DataTicker\<close>

text \<open>
  A line as \<open>ReadSlice\<close> delivers it: it ends with its only newline and fits the buffer
  of the reader.
\<close>

definition valid_line :: "bytes \<Rightarrow> bool" where
  "valid_line ln \<longleftrightarrow>
     ln \<noteq> [] \<and> last ln = CHR ''\<newline>'' \<and> CHR ''\<newline>'' \<notin> set (butlast ln) \<and> length ln \<le> 1536"

lemma ReadSlice_line:
  assumes "valid_line ln"
  shows "ReadSlice (ln @ rest) = (ln, None, rest)"
proof -
  define b where "b = butlast ln"
  from assms have "ln \<noteq> []" "last ln = CHR ''\<newline>''"
    by (simp_all add: valid_line_def)
  with append_butlast_last_id [of ln] have ln: "ln = b @ [CHR ''\<newline>'']"
    by (simp add: b_def)
  from assms have nl: "CHR ''\<newline>'' \<notin> set b" and "length ln \<le> 1536"
    by (simp_all add: valid_line_def b_def)
  with ln have len: "length b < 1536"
    by (metis Suc_le_eq length_append_singleton)
  from len have "1536 - length b = Suc (1535 - length b)"
    by simp
  then have "take 1536 (ln @ rest) = b @ CHR ''\<newline>'' # take (1535 - length b) rest"
    using len by (simp add: ln)
  then have "IndexByte (take 1536 (ln @ rest)) CHR ''\<newline>'' = int (length b)"
    by (simp add: IndexByte_first [OF nl])
  then show ?thesis
    by (simp add: ReadSlice_def ln)
qed

text \<open>The loop of lines 225 to 313 on lines that are already split.\<close>

fun scan_lines :: "bytes list \<Rightarrow> ticker_state \<Rightarrow> outcome" where
  "scan_lines [] st = Ok st"
| "scan_lines (ln # ls) st =
     (if t_l st = 16 then Ok st
      else
        (let st1 = st\<lparr>t_l := t_l st + 1\<rparr> in
         if t_l st1 > 8 \<and> t_l st1 < 15 then scan_lines ls st1
         else
           (case DataTicker_line ln st1 of
              Panic st2 \<Rightarrow> Panic st2
            | Ok st2 \<Rightarrow> scan_lines ls st2)))"

lemma DataTicker_lines_stop: "t_l st = 16 \<Longrightarrow> DataTicker_lines rest st = Ok st"
  by (subst DataTicker_lines.simps) simp

lemma DataTicker_lines_scan:
  assumes "\<forall>ln\<in>set ls. valid_line ln"
  shows "DataTicker_lines (concat ls @ rest) st =
     (case scan_lines ls st of Panic s \<Rightarrow> Panic s | Ok s \<Rightarrow> DataTicker_lines rest s)"
  using assms
proof (induction ls arbitrary: st)
  case Nil
  then show ?case by simp
next
  case (Cons ln ls)
  then have rs: "ReadSlice (ln @ concat ls @ rest) = (ln, None, concat ls @ rest)"
    by (simp add: ReadSlice_line)
  show ?case
  proof (cases "t_l st = 16")
    case True
    then show ?thesis by (simp add: DataTicker_lines_stop)
  next
    case False
    with Cons show ?thesis
      by (subst DataTicker_lines.simps) (simp add: rs Let_def split: outcome.splits)
  qed
qed

lemma DataTicker_line_l: "DataTicker_line ln st = Ok s \<Longrightarrow> t_l s = t_l st"
  by (auto simp: DataTicker_line_def Let_def split: prod.splits if_splits sum.splits)

lemma scan_lines_l:
  "t_l st \<le> 16 \<Longrightarrow> scan_lines ls st = Ok s \<Longrightarrow> t_l s = min 16 (t_l st + length ls)"
proof (induction ls arbitrary: st)
  case Nil
  then show ?case by simp
next
  case (Cons ln ls)
  show ?case
  proof (cases "t_l st = 16")
    case True
    with Cons.prems show ?thesis by auto
  next
    case False
    with Cons.prems have l: "t_l st < 16" by simp
    let ?st1 = "st\<lparr>t_l := t_l st + 1\<rparr>"
    show ?thesis
    proof (cases "t_l ?st1 > 8 \<and> t_l ?st1 < 15")
      case True
      with Cons.prems False have "scan_lines ls ?st1 = Ok s" by (simp add: Let_def)
      from Cons.IH [OF _ this] l show ?thesis by simp
    next
      case skip: False
      with Cons.prems False obtain st2 where
        st2: "DataTicker_line ln ?st1 = Ok st2" and s: "scan_lines ls st2 = Ok s"
        by (auto simp: Let_def split: outcome.splits)
      from DataTicker_line_l [OF st2] have "t_l st2 = t_l st + 1" by simp
      with Cons.IH [OF _ s] l show ?thesis by simp
    qed
  qed
qed

text \<open>The lines that the loop parses, counted from 0: not the lines 9 to 14, and none after line 16.\<close>

definition parsed :: "nat \<Rightarrow> bool" where
  "parsed i \<longleftrightarrow> i < 16 \<and> \<not> (8 \<le> i \<and> i < 14)"

lemma scan_lines_cong:
  assumes "length ls = length ls'" "t_l st \<le> 16"
    and "\<forall>i<length ls. parsed (t_l st + i) \<longrightarrow> ls ! i = ls' ! i"
  shows "scan_lines ls st = scan_lines ls' st"
  using assms
proof (induction ls ls' arbitrary: st rule: list_induct2)
  case Nil
  then show ?case by simp
next
  case (Cons x xs y ys)
  show ?case
  proof (cases "t_l st = 16")
    case True
    then show ?thesis by simp
  next
    case False
    with Cons.prems have l: "t_l st < 16" by simp
    let ?st1 = "st\<lparr>t_l := t_l st + 1\<rparr>"
    have tl: "\<forall>i<length xs. parsed (t_l st + 1 + i) \<longrightarrow> xs ! i = ys ! i"
    proof (intro allI impI)
      fix i assume "i < length xs" "parsed (t_l st + 1 + i)"
      with Cons.prems(2) [rule_format, of "Suc i"] show "xs ! i = ys ! i" by simp
    qed
    show ?thesis
    proof (cases "t_l ?st1 > 8 \<and> t_l ?st1 < 15")
      case True
      have "scan_lines xs ?st1 = scan_lines ys ?st1"
        by (rule Cons.IH) (use l tl in simp_all)
      with True False show ?thesis by (simp add: Let_def)
    next
      case skip: False
      with l have "parsed (t_l st + 0)" by (auto simp: parsed_def)
      with Cons.prems(2) [rule_format, of 0] have xy: "x = y" by simp
      have IH: "scan_lines xs st2 = scan_lines ys st2" if "DataTicker_line y ?st1 = Ok st2" for st2
      proof (rule Cons.IH)
        from DataTicker_line_l [OF that] have l2: "t_l st2 = t_l st + 1" by simp
        with l show "t_l st2 \<le> 16" by simp
        from tl l2 show "\<forall>i<length xs. parsed (t_l st2 + i) \<longrightarrow> xs ! i = ys ! i" by simp
      qed
      show ?thesis
      proof (cases "DataTicker_line y ?st1")
        case (Ok st2)
        with IH [OF Ok] skip False xy show ?thesis by (auto simp: Let_def)
      next
        case (Panic st2)
        with skip False xy show ?thesis by (auto simp: Let_def)
      qed
    qed
  qed
qed

lemma DataTicker_lines_cong:
  assumes "t_l st = 0"
    and "\<forall>ln\<in>set ls \<union> set ls'. valid_line ln"
    and "length ls = length ls'"
    and "\<forall>i<length ls. parsed i \<longrightarrow> ls ! i = ls' ! i"
    and "length ls < 16 \<longrightarrow> rest = rest'"
  shows "DataTicker_lines (concat ls @ rest) st = DataTicker_lines (concat ls' @ rest') st"
proof -
  from assms have v: "\<forall>ln\<in>set ls. valid_line ln" "\<forall>ln\<in>set ls'. valid_line ln"
    by auto
  have sc: "scan_lines ls st = scan_lines ls' st"
    by (rule scan_lines_cong) (use assms in simp_all)
  show ?thesis
  proof (cases "scan_lines ls' st")
    case (Panic s)
    with sc show ?thesis by (simp add: DataTicker_lines_scan v)
  next
    case (Ok s)
    from scan_lines_l [OF _ Ok] assms have l: "t_l s = min 16 (length ls)" by simp
    have "DataTicker_lines rest s = DataTicker_lines rest' s"
    proof (cases "length ls < 16")
      case True
      with assms show ?thesis by simp
    next
      case False
      with l have "t_l s = 16" by simp
      then show ?thesis by (simp add: DataTicker_lines_stop)
    qed
    with sc Ok show ?thesis by (simp add: DataTicker_lines_scan v)
  qed
qed

text \<open>What a tick has done when it ends: the errors and the records that it has sent.\<close>

fun outcome_state :: "outcome \<Rightarrow> ticker_state" where
  "outcome_state (Ok st) = st"
| "outcome_state (Panic st) = st"

definition errors_of :: "action list \<Rightarrow> joeError list" where
  "errors_of tr = concat (map (\<lambda>a. case a of SendErr e \<Rightarrow> [e] | _ \<Rightarrow> []) tr)"

definition records_of :: "action list \<Rightarrow> Info option list" where
  "records_of tr = concat (map (\<lambda>a. case a of SendOut d \<Rightarrow> [Deserialize d] | _ \<Rightarrow> []) tr)"

lemma DataTicker_tick_cong:
  assumes "DataTicker_lines c (st\<lparr>t_bldr := DataAddTimestamp (DataStart (t_bldr st)) t\<rparr>)
         = DataTicker_lines c' (st\<lparr>t_bldr := DataAddTimestamp (DataStart (t_bldr st)) t\<rparr>)"
  shows "DataTicker_tick t (Inr c) st = DataTicker_tick t (Inr c') st"
  using assms by (simp add: DataTicker_tick_def Let_def)

lemma Deserialize_written:
  assumes "\<forall>w\<in>set ws. fst w < 11" "length ws \<le> 8000"
  shows "Deserialize (Bytes (Finish (DataEnd (foldl write_slot (DataStart NewBuilder) ws))))
         = Some (Info_of_slots (foldl set_slot (\<lambda>s. 0) ws))"
proof -
  have "fb_writes (0 + length ws) (foldl write_slot (DataStart NewBuilder) ws)
          (foldl set_slot (\<lambda>s. 0) ws)"
    by (rule fb_writes_foldl [OF fb_writes_DataStart assms(1)])
  then show ?thesis
    by (rule Deserialize_Finish) (use assms(2) in simp)
qed

lemmas ticker_eval = DataTicker_line_def Let_def Atoi_def ParseUint_def maxUint64_def
  DataTicker_add_def

lemma tick_on_lines:
  assumes "\<forall>ln\<in>set ls. valid_line ln"
    and "scan_lines ls (st\<lparr>t_bldr := DataAddTimestamp (DataStart (t_bldr st)) t\<rparr>) = Ok s"
    and "DataTicker_lines rest s = Ok s'"
  shows "DataTicker_tick t (Inr (concat ls @ rest)) st =
     Ok (s'\<lparr>trace := trace s' @ [SendOut (Bytes (Finish (DataEnd (t_bldr s'))))],
            t_bldr := Reset (Finish (DataEnd (t_bldr s'))), t_l := 0\<rparr>)"
  using assms by (simp add: DataTicker_tick_def Let_def DataTicker_lines_scan)

lemma grab_name_colon:
  "CHR '':'' \<notin> set L \<Longrightarrow>
   grab_name (L @ CHR '':'' # rest) i val pos = (val @ L, i + length L + 1)"
  by (induction L arbitrary: i val) auto

lemma skip_spaces_run:
  "c \<noteq> CHR '' '' \<Longrightarrow> skip_spaces (replicate n CHR '' '' @ c # rest) i pos = pos + (i + n)"
  by (induction n arbitrary: i) auto

lemma grab_numbers_token:
  "\<forall>c\<in>set V. c \<noteq> CHR '' '' \<and> c \<noteq> CHR 0x0D \<Longrightarrow> c = CHR '' '' \<or> c = CHR 0x0D \<Longrightarrow>
   grab_numbers (V @ c # rest) val = val @ V"
  by (induction V arbitrary: val) auto

text \<open>
  A line as \<open>DataTicker\<close> reads it: the label holds no colon, the value token holds
  neither a space nor a carriage return and is followed by one of them.
\<close>

definition token_shape :: "kv_line \<Rightarrow> bool" where
  "token_shape m \<longleftrightarrow>
     CHR '':'' \<notin> set (k_label m)
     \<and> (\<forall>c\<in>set (k_value m). c \<noteq> CHR '' '' \<and> c \<noteq> CHR 0x0D)
     \<and> k_tail m \<noteq> []
     \<and> (hd (k_tail m) = CHR '' '' \<or> hd (k_tail m) = CHR 0x0D)
     \<and> (k_value m = [] \<longrightarrow> hd (k_tail m) = CHR 0x0D)"

lemma DataTicker_line_render:
  assumes "token_shape m"
  shows "DataTicker_line (render m) st =
     (case Atoi (k_value m) of
        Inl err \<Rightarrow>
          Ok (st\<lparr>t_pos := length (k_label m) + 1 + k_spaces m, t_val := k_value m,
                 trace := trace st @ [SendErr (joe_Error ''mem'' ''convert to int'' err)]\<rparr>)
      | Inr i \<Rightarrow>
          Ok (st\<lparr>t_pos := length (k_label m) + 1 + k_spaces m, t_val := [],
                 t_bldr := DataTicker_add (t_val st @ k_label m) i (t_bldr st)\<rparr>))"
proof -
  define L where "L = k_label m"
  define n where "n = k_spaces m"
  define V where "V = k_value m"
  define T where "T = k_tail m"
  from assms obtain c T' where T: "T = c # T'" and c: "c = CHR '' '' \<or> c = CHR 0x0D"
    and cV: "V = [] \<Longrightarrow> c = CHR 0x0D"
    by (cases T) (auto simp: token_shape_def T_def V_def)
  from assms have L: "CHR '':'' \<notin> set L"
    and V: "\<forall>c\<in>set V. c \<noteq> CHR '' '' \<and> c \<noteq> CHR 0x0D"
    by (simp_all add: token_shape_def L_def V_def)
  define R where "R = V @ c # T' @ ''\<newline>''"
  have ln: "render m = L @ CHR '':'' # replicate n CHR '' '' @ R"
    by (simp add: render_def L_def n_def V_def T_def [symmetric] T R_def)
  have g: "grab_name (L @ CHR '':'' # replicate n CHR '' '' @ R) 0 (t_val st) (t_pos st)
           = (t_val st @ L, length L + 1)"
    using grab_name_colon [OF L, of _ 0] by simp
  have le: "\<not> length L + 1 > length (L @ CHR '':'' # replicate n CHR '' '' @ R)"
    by simp
  have d1: "drop (length L + 1) (L @ CHR '':'' # replicate n CHR '' '' @ R)
            = replicate n CHR '' '' @ R"
    by simp
  obtain r R' where R: "R = r # R'" and r: "r \<noteq> CHR '' ''"
  proof (cases V)
    case Nil
    with cV have "R = CHR 0x0D # T' @ ''\<newline>''" by (simp add: R_def)
    then show ?thesis by (intro that) auto
  next
    case (Cons v V')
    with V have "R = v # V' @ c # T' @ ''\<newline>''" "v \<noteq> CHR '' ''" by (simp_all add: R_def)
    then show ?thesis by (intro that)
  qed
  have s: "skip_spaces (replicate n CHR '' '' @ R) 0 (length L + 1) = length L + 1 + n"
    unfolding R using skip_spaces_run [OF r, of n R' 0] by simp
  have d2: "drop (length L + 1 + n) (L @ CHR '':'' # replicate n CHR '' '' @ R) = R"
    by simp
  have t: "grab_numbers R [] = V"
    unfolding R_def using grab_numbers_token [OF V c, of "T' @ ''\<newline>''" "[]"] by simp
  show ?thesis
    unfolding DataTicker_line_def ln g Let_def prod.case d1 s d2 t
    by (simp add: L_def n_def V_def split: sum.splits)
qed


lemma DataTicker_lines_one:
  assumes "valid_line ln" "parsed (t_l st)"
  shows "DataTicker_lines (ln @ rest) st =
     (case DataTicker_line ln (st\<lparr>t_l := t_l st + 1\<rparr>) of
        Panic s \<Rightarrow> Panic s
      | Ok s \<Rightarrow> DataTicker_lines rest s)"
proof -
  from assms(2) have "t_l st \<noteq> 16" "\<not> (t_l st + 1 > 8 \<and> t_l st + 1 < 15)"
    by (auto simp: parsed_def)
  then have "scan_lines [ln] st =
     (case DataTicker_line ln (st\<lparr>t_l := t_l st + 1\<rparr>) of Panic s \<Rightarrow> Panic s | Ok s \<Rightarrow> Ok s)"
    by (auto simp: Let_def split: outcome.splits)
  moreover have "DataTicker_lines (concat [ln] @ rest) st =
     (case scan_lines [ln] st of Panic s \<Rightarrow> Panic s | Ok s \<Rightarrow> DataTicker_lines rest s)"
    by (rule DataTicker_lines_scan) (use assms in simp)
  ultimately show ?thesis
    by (simp split: outcome.splits)
qed







section \<open>The claims\<close>

text \<open>
  C1.  For every \<open>Info\<close> record \<open>s\<close>, the all-zero record included, \<open>Deserialize\<close> of
  \<open>Serialize s\<close> does not panic and returns a record equal to \<open>s\<close> in every field.
\<close>

theorem C1_roundtrip: "Deserialize (Serialize s) = Some s"
  by (rule Deserialize_Serialize)

text \<open>
  C5.  Parsing the example buffer of the spec with the timestamp 1000 yields the record
  with \<open>MemTotal = 16384000\<close>, \<open>MemFree = 512000\<close>, \<open>Cached = 2048000\<close> and every other
  field zero, and the serialized form of that record deserializes to the same record.
\<close>

theorem C5_example:
  "GetInfo 1000 (Inr ''MemTotal:    16384000 kB\<newline>MemFree:     512000 kB\<newline>Cached:      2048000 kB\<newline>'')
     = Inr \<lparr>Timestamp = 1000, MemTotal = 16384000, MemFree = 512000, MemAvailable = 0,
            Buffers = 0, Cached = 2048000, SwapCached = 0, Active = 0, Inactive = 0,
            SwapTotal = 0, SwapFree = 0\<rparr>
   \<and> Deserialize (Serialize
         \<lparr>Timestamp = 1000, MemTotal = 16384000, MemFree = 512000, MemAvailable = 0,
          Buffers = 0, Cached = 2048000, SwapCached = 0, Active = 0, Inactive = 0,
          SwapTotal = 0, SwapFree = 0\<rparr>)
     = Some \<lparr>Timestamp = 1000, MemTotal = 16384000, MemFree = 512000, MemAvailable = 0,
            Buffers = 0, Cached = 2048000, SwapCached = 0, Active = 0, Inactive = 0,
            SwapTotal = 0, SwapFree = 0\<rparr>"
proof
  show "GetInfo 1000 (Inr ''MemTotal:    16384000 kB\<newline>MemFree:     512000 kB\<newline>Cached:      2048000 kB\<newline>'')
     = Inr \<lparr>Timestamp = 1000, MemTotal = 16384000, MemFree = 512000, MemAvailable = 0,
            Buffers = 0, Cached = 2048000, SwapCached = 0, Active = 0, Inactive = 0,
            SwapTotal = 0, SwapFree = 0\<rparr>"
    by (simp add: GetInfo_eval)
qed (rule Deserialize_Serialize)

text \<open>
  C6, as amended.  Label matching is equality of the bytes before the colon, and a line
  with an unknown label whose value converts (a run of digits that is not empty and
  denotes at most \<open>2^64 - 1\<close>) is ignored: inserted after any number of such well-formed
  lines and before any rest of the buffer, it leaves the result of \<open>GetInfo\<close> as it is.
\<close>

theorem C6_unknown_line_ignored:
  assumes "\<forall>x\<in>set pre. wf_line x" and "wf_line m" and "k_label m \<notin> set known_labels"
  shows "GetInfo now (Inr (concat (map render pre) @ render m @ post))
         = GetInfo now (Inr (concat (map render pre) @ post))"
proof -
  from assms have wf: "\<forall>x\<in>set (pre @ [m]). wf_line x" by simp
  have "concat (map render pre) @ render m @ post = concat (map render (pre @ [m])) @ post"
    by simp
  then show ?thesis
    unfolding GetInfo_def
    by (simp only: sum.case GetInfo_loop_lines [OF wf] GetInfo_loop_lines [OF assms(1)]
        foldl_append foldl.simps GetInfo_switch_unknown [OF assms(3)])
qed

text \<open>The amended claim at a line \<open>Foo: 12 kB\<close> between two known lines.\<close>

theorem C6_witness:
  "GetInfo 1000 (Inr ''MemTotal: 1 kB\<newline>Foo: 12 kB\<newline>MemFree: 2 kB\<newline>'')
   = GetInfo 1000 (Inr ''MemTotal: 1 kB\<newline>MemFree: 2 kB\<newline>'')"
  using C6_unknown_line_ignored [of
      "[\<lparr>k_label = ''MemTotal'', k_spaces = 1, k_value = ''1'', k_tail = '' kB''\<rparr>]"
      "\<lparr>k_label = ''Foo'', k_spaces = 1, k_value = ''12'', k_tail = '' kB''\<rparr>"
      1000 "''MemFree: 2 kB\<newline>''"]
  by (simp add: wf_line_def line_shape_def render_def is_digit_def maxUint64_def
      known_labels_def labelled_fields_def label_defs)

text \<open>
  C6 as stated fails: an inserted line with an unknown label and no digits makes
  \<open>GetInfo\<close> return the error of the conversion (line 138) instead of the record.
\<close>

theorem C6_counterexample:
  "GetInfo 1000 (Inr ''MemTotal: 1 kB\<newline>Foo: kB\<newline>MemFree: 2 kB\<newline>'') = Inl ErrSyntax
   \<and> GetInfo 1000 (Inr ''MemTotal: 1 kB\<newline>MemFree: 2 kB\<newline>'')
       = Inr \<lparr>Timestamp = 1000, MemTotal = 1, MemFree = 2, MemAvailable = 0,
            Buffers = 0, Cached = 0, SwapCached = 0, Active = 0, Inactive = 0,
            SwapTotal = 0, SwapFree = 0\<rparr>"
  by (simp add: GetInfo_eval)

text \<open>
  C7.  If there is no colon in what is left of the buffer, the loop ends and returns the
  record without an error; and in the record that \<open>GetInfo\<close> returns, every field whose
  label is the name of none of the lines of the buffer is zero.  The lines are those that
  the loop reaches, \<open>GetInfo_names\<close>; in a buffer made of well-formed lines they are the
  lines of the buffer, named by their labels.  A label that only occurs inside another
  name, as \<open>Cached\<close> in \<open>SwapCached\<close>, is absent.
\<close>

theorem C7_no_colon_and_absent_labels:
  "(CHR '':'' \<notin> set (drop p buf) \<longrightarrow> GetInfo_loop buf p f = Inr f)
   \<and> (GetInfo now (Inr buf) = Inr r \<longrightarrow>
        (\<forall>(lab, fld)\<in>set labelled_fields. lab \<notin> set (GetInfo_names buf 0) \<longrightarrow> fld r = 0))
   \<and> ((\<forall>m\<in>set ms. wf_line m) \<and> CHR '':'' \<notin> set post \<longrightarrow>
        GetInfo_names (concat (map render ms) @ post) 0 = map k_label ms)"
proof (intro conjI impI ballI)
  assume "CHR '':'' \<notin> set (drop p buf)"
  then show "GetInfo_loop buf p f = Inr f" by (rule GetInfo_loop_no_colon)
next
  fix x
  assume r: "GetInfo now (Inr buf) = Inr r" and x: "x \<in> set labelled_fields"
  obtain lab fld where lf: "x = (lab, fld)" by (cases x)
  define f0 where "f0 = \<lparr>Timestamp = now, MemTotal = 0, MemFree = 0, MemAvailable = 0,
    Buffers = 0, Cached = 0, SwapCached = 0, Active = 0, Inactive = 0, SwapTotal = 0,
    SwapFree = 0\<rparr>"
  from r have l: "GetInfo_loop buf 0 f0 = Inr r" by (simp add: GetInfo_def f0_def)
  have "fld r = fld f0" if "lab \<notin> set (GetInfo_names buf 0)"
    by (rule GetInfo_loop_unnamed [OF l x [unfolded lf] that])
  moreover from x have "fld f0 = 0"
    by (auto simp: lf labelled_fields_def f0_def)
  ultimately show "case x of (lab, fld) \<Rightarrow> lab \<notin> set (GetInfo_names buf 0) \<longrightarrow> fld r = 0"
    by (auto simp: lf)
next
  assume a: "(\<forall>m\<in>set ms. wf_line m) \<and> CHR '':'' \<notin> set post"
  then have "GetInfo_names post 0 = []" by (intro GetInfo_names_no_colon) simp
  with a show "GetInfo_names (concat (map render ms) @ post) 0 = map k_label ms"
    by (simp add: GetInfo_names_lines)
qed

text \<open>
  C7 at a buffer with the lines \<open>SwapCached\<close> and \<open>Active(anon)\<close>: the loop ends at index
  37, and \<open>Cached\<close> and \<open>Active\<close>, which name no line, are zero.
\<close>

theorem C7_witness:
  "CHR '':'' \<notin> set (drop 37 ''SwapCached: 5 kB\<newline>Active(anon): 7 kB\<newline>'')
   \<and> GetInfo_loop ''SwapCached: 5 kB\<newline>Active(anon): 7 kB\<newline>'' 37
         \<lparr>Timestamp = 1, MemTotal = 2, MemFree = 3, MemAvailable = 4,
            Buffers = 5, Cached = 6, SwapCached = 7, Active = 8, Inactive = 9,
            SwapTotal = 10, SwapFree = 11\<rparr>
       = Inr \<lparr>Timestamp = 1, MemTotal = 2, MemFree = 3, MemAvailable = 4,
            Buffers = 5, Cached = 6, SwapCached = 7, Active = 8, Inactive = 9,
            SwapTotal = 10, SwapFree = 11\<rparr>
   \<and> GetInfo_names ''SwapCached: 5 kB\<newline>Active(anon): 7 kB\<newline>'' 0
       = [''SwapCached'', ''Active(anon)'']
   \<and> GetInfo 1000 (Inr ''SwapCached: 5 kB\<newline>Active(anon): 7 kB\<newline>'')
       = Inr \<lparr>Timestamp = 1000, MemTotal = 0, MemFree = 0, MemAvailable = 0,
            Buffers = 0, Cached = 0, SwapCached = 5, Active = 0, Inactive = 0,
            SwapTotal = 0, SwapFree = 0\<rparr>"
  using C7_no_colon_and_absent_labels [of 37
      "''SwapCached: 5 kB\<newline>Active(anon): 7 kB\<newline>''"
      "\<lparr>Timestamp = 1, MemTotal = 2, MemFree = 3, MemAvailable = 4,
            Buffers = 5, Cached = 6, SwapCached = 7, Active = 8, Inactive = 9,
            SwapTotal = 10, SwapFree = 11\<rparr>" 1000
      "\<lparr>Timestamp = 1000, MemTotal = 0, MemFree = 0, MemAvailable = 0,
            Buffers = 0, Cached = 0, SwapCached = 5, Active = 0, Inactive = 0,
            SwapTotal = 0, SwapFree = 0\<rparr>"
      "[\<lparr>k_label = ''SwapCached'', k_spaces = 1, k_value = ''5'', k_tail = '' kB''\<rparr>,
        \<lparr>k_label = ''Active(anon)'', k_spaces = 1, k_value = ''7'', k_tail = '' kB''\<rparr>]"
      "[]"]
  by (simp add: GetInfo_eval labelled_fields_def wf_line_def line_shape_def render_def
      is_digit_def)

text \<open>
  C2.  The claim asks for one mapping from labels to fields in both paths.  The code
  breaks it at the label \<open>Cached\<close>: on the example buffer of the spec, \<open>GetInfo\<close> stores
  the value of the \<open>Cached\<close> line in \<open>Cached\<close>, while the record that \<open>DataTicker\<close> sends
  has it in \<open>MemAvailable\<close> and has \<open>Cached\<close> zero (line 290 calls \<open>DataAddMemAvailable\<close>).
\<close>

theorem C2_cached_written_to_MemAvailable:
  "GetInfo 1000 (Inr ''MemTotal:    16384000 kB\<newline>MemFree:     512000 kB\<newline>Cached:      2048000 kB\<newline>'')
     = Inr \<lparr>Timestamp = 1000, MemTotal = 16384000, MemFree = 512000, MemAvailable = 0,
            Buffers = 0, Cached = 2048000, SwapCached = 0, Active = 0, Inactive = 0,
            SwapTotal = 0, SwapFree = 0\<rparr>
   \<and> records_of (trace (outcome_state (DataTicker_tick 1000
        (Inr ''MemTotal:    16384000 kB\<newline>MemFree:     512000 kB\<newline>Cached:      2048000 kB\<newline>'')
        ticker_init)))
     = [Some \<lparr>Timestamp = 1000, MemTotal = 16384000, MemFree = 512000,
              MemAvailable = 2048000, Buffers = 0, Cached = 0, SwapCached = 0, Active = 0,
              Inactive = 0, SwapTotal = 0, SwapFree = 0\<rparr>]"
proof
  show "GetInfo 1000 (Inr ''MemTotal:    16384000 kB\<newline>MemFree:     512000 kB\<newline>Cached:      2048000 kB\<newline>'')
     = Inr \<lparr>Timestamp = 1000, MemTotal = 16384000, MemFree = 512000, MemAvailable = 0,
            Buffers = 0, Cached = 2048000, SwapCached = 0, Active = 0, Inactive = 0,
            SwapTotal = 0, SwapFree = 0\<rparr>"
    by (simp add: GetInfo_eval)
next
  define ws where "ws = [(0::nat, 1000::int64), (1, 16384000), (2, 512000), (3, 2048000)]"
  define b where "b = foldl write_slot (DataStart NewBuilder) ws"
  define s where "s = \<lparr>t_l = 3, t_pos = 13, t_val = [], t_bldr = b, trace = []\<rparr>"
  let ?ls = "[''MemTotal:    16384000 kB\<newline>'', ''MemFree:     512000 kB\<newline>'', ''Cached:      2048000 kB\<newline>'']"
  have v: "\<forall>ln\<in>set ?ls. valid_line ln"
    by (simp add: valid_line_def)
  have sc: "scan_lines ?ls
      (ticker_init\<lparr>t_bldr := DataAddTimestamp (DataStart (t_bldr ticker_init)) 1000\<rparr>) = Ok s"
    by (simp add: ticker_init_def ticker_eval s_def b_def ws_def write_slot_def DataAdd_defs)
  have st: "DataTicker_lines [] s = Ok s"
    by (subst DataTicker_lines.simps) (simp add: s_def ReadSlice_def)
  have d: "Deserialize (Bytes (Finish (DataEnd b))) = Some (Info_of_slots (foldl set_slot (\<lambda>s. 0) ws))"
    unfolding b_def by (rule Deserialize_written) (simp_all add: ws_def)
  have "DataTicker_tick 1000 (Inr (concat ?ls @ [])) ticker_init =
     Ok (s\<lparr>trace := trace s @ [SendOut (Bytes (Finish (DataEnd (t_bldr s))))],
            t_bldr := Reset (Finish (DataEnd (t_bldr s))), t_l := 0\<rparr>)"
    by (rule tick_on_lines [OF v sc st])
  then show "records_of (trace (outcome_state (DataTicker_tick 1000
        (Inr ''MemTotal:    16384000 kB\<newline>MemFree:     512000 kB\<newline>Cached:      2048000 kB\<newline>'')
        ticker_init)))
     = [Some \<lparr>Timestamp = 1000, MemTotal = 16384000, MemFree = 512000,
              MemAvailable = 2048000, Buffers = 0, Cached = 0, SwapCached = 0, Active = 0,
              Inactive = 0, SwapTotal = 0, SwapFree = 0\<rparr>]"
    by (simp add: records_of_def s_def d Info_of_slots_def set_slot_def ws_def)
qed

text \<open>
  C4, as amended.  \<open>DataTicker\<close> stops reading after 16 lines and reports nothing:
  whatever follows the 16th line of a sample, the tick sends the same bytes and the same
  errors, and leaves the same state, as for the sample that ends after its 16th line.
\<close>

theorem C4_cutoff_is_silent:
  assumes "t_l st = 0" and "\<forall>ln\<in>set ls. valid_line ln" and "length ls = 16"
  shows "DataTicker_tick t (Inr (concat ls @ rest)) st = DataTicker_tick t (Inr (concat ls)) st"
proof -
  have "DataTicker_tick t (Inr (concat ls @ rest)) st = DataTicker_tick t (Inr (concat ls @ [])) st"
    by (rule DataTicker_tick_cong, rule DataTicker_lines_cong) (use assms in simp_all)
  then show ?thesis by simp
qed

text \<open>The amended claim at sixteen lines followed by a \<open>MemTotal\<close> line.\<close>

theorem C4_witness:
  "DataTicker_tick 1000
     (Inr (concat (replicate 16 ''a: 1 kB\<newline>'') @ ''MemTotal: 5 kB\<newline>'')) ticker_init
   = DataTicker_tick 1000 (Inr (concat (replicate 16 ''a: 1 kB\<newline>''))) ticker_init"
proof -
  have h1: "t_l ticker_init = 0" by (simp add: ticker_init_def)
  have h2: "\<forall>ln\<in>set (replicate 16 ''a: 1 kB\<newline>''). valid_line ln" by (auto simp: valid_line_def)
  have h3: "length (replicate 16 ''a: 1 kB\<newline>'') = 16" by simp
  show ?thesis
    by (rule C4_cutoff_is_silent [OF h1 h2 h3])
qed

text \<open>
  C4 as stated fails: on a sample of 17 lines the tick sends no error at all, and the
  record that it sends does not hold the value of the 17th line.
\<close>

theorem C4_counterexample:
  "errors_of (trace (outcome_state (DataTicker_tick 1000
      (Inr (concat (replicate 16 ''a: 1 kB\<newline>'') @ ''MemTotal: 5 kB\<newline>'')) ticker_init))) = []
   \<and> records_of (trace (outcome_state (DataTicker_tick 1000
      (Inr (concat (replicate 16 ''a: 1 kB\<newline>'') @ ''MemTotal: 5 kB\<newline>'')) ticker_init)))
     = [Some \<lparr>Timestamp = 1000, MemTotal = 0, MemFree = 0, MemAvailable = 0, Buffers = 0,
              Cached = 0, SwapCached = 0, Active = 0, Inactive = 0, SwapTotal = 0,
              SwapFree = 0\<rparr>]"
proof -
  define b where "b = foldl write_slot (DataStart NewBuilder) [(0, 1000)]"
  define s where "s = \<lparr>t_l = 16, t_pos = 3, t_val = [], t_bldr = b, trace = []\<rparr>"
  have v: "\<forall>ln\<in>set (replicate 16 ''a: 1 kB\<newline>''). valid_line ln"
    by (auto simp: valid_line_def)
  have r: "replicate 16 x = [x, x, x, x, x, x, x, x, x, x, x, x, x, x, x, x]" for x :: bytes
    by (simp add: numeral_eq_Suc)
  have sc: "scan_lines (replicate 16 ''a: 1 kB\<newline>'')
      (ticker_init\<lparr>t_bldr := DataAddTimestamp (DataStart (t_bldr ticker_init)) 1000\<rparr>) = Ok s"
    unfolding r
    by (simp add: ticker_init_def ticker_eval s_def b_def write_slot_def DataAddTimestamp_def)
  have st: "DataTicker_lines ''MemTotal: 5 kB\<newline>'' s = Ok s"
    by (rule DataTicker_lines_stop) (simp add: s_def)
  have d: "Deserialize (Bytes (Finish (DataEnd b))) = Some (Info_of_slots (foldl set_slot (\<lambda>s. 0) [(0, 1000)]))"
    unfolding b_def by (rule Deserialize_written) simp_all
  show ?thesis
    unfolding tick_on_lines [OF v sc st]
    by (simp add: errors_of_def records_of_def s_def d Info_of_slots_def set_slot_def)
qed

text \<open>
  C10.  \<open>DataTicker\<close> parses at most the first 16 lines of a sample and skips its lines 9
  to 14: two samples of as many lines that differ only in lines 9 to 14 and in what
  follows line 16 give the same tick, whatever those lines hold.  (Lines are counted from
  0 in \<open>parsed\<close>.)
\<close>

theorem C10_skipped_and_unread_lines:
  assumes "t_l st = 0"
    and "\<forall>ln\<in>set ls \<union> set ls'. valid_line ln"
    and "length ls = length ls'"
    and "\<forall>i<length ls. parsed i \<longrightarrow> ls ! i = ls' ! i"
    and "length ls < 16 \<longrightarrow> rest = rest'"
  shows "DataTicker_tick t (Inr (concat ls @ rest)) st
         = DataTicker_tick t (Inr (concat ls' @ rest')) st"
  by (rule DataTicker_tick_cong, rule DataTicker_lines_cong) (use assms in simp_all)

text \<open>
  C10 at two samples that differ in all of the lines 9 to 14 and after line 16.
\<close>

theorem C10_witness:
  "DataTicker_tick 1000
     (Inr (concat (replicate 8 ''a: 1 kB\<newline>'' @ replicate 6 ''Cached: 5 kB\<newline>''
                   @ replicate 2 ''a: 1 kB\<newline>'') @ ''MemTotal: 5 kB\<newline>'')) ticker_init
   = DataTicker_tick 1000
     (Inr (concat (replicate 8 ''a: 1 kB\<newline>'' @ replicate 6 ''MemFree: 7 kB\<newline>''
                   @ replicate 2 ''a: 1 kB\<newline>'') @ '''')) ticker_init"
proof -
  let ?ls = "replicate 8 ''a: 1 kB\<newline>'' @ replicate 6 ''Cached: 5 kB\<newline>'' @ replicate 2 ''a: 1 kB\<newline>''"
  let ?ls' = "replicate 8 ''a: 1 kB\<newline>'' @ replicate 6 ''MemFree: 7 kB\<newline>'' @ replicate 2 ''a: 1 kB\<newline>''"
  have h1: "t_l ticker_init = 0" by (simp add: ticker_init_def)
  have h2: "\<forall>ln\<in>set ?ls \<union> set ?ls'. valid_line ln" by (auto simp: valid_line_def)
  have h3: "length ?ls = length ?ls'" by simp
  have h4: "\<forall>i<length ?ls. parsed i \<longrightarrow> ?ls ! i = ?ls' ! i"
    by (auto simp: parsed_def nth_append)
  have h5: "length ?ls < 16 \<longrightarrow> ''MemTotal: 5 kB\<newline>'' = ''''" by simp
  show ?thesis
    by (rule C10_skipped_and_unread_lines [OF h1 h2 h3 h4 h5])
qed

text \<open>
  C3, as amended.  A value token that fails the numeric conversion is an error in both
  paths.  In \<open>GetInfo\<close> it ends the scan: after any well-formed lines, a line whose run of
  digits is empty or denotes more than \<open>2^64 - 1\<close> makes \<open>GetInfo\<close> return the error of the
  conversion, and no record.  In \<open>DataTicker\<close> the error is sent on the error channel, no
  field is written for that line, and the scan goes on with the next line.
\<close>

theorem C3_conversion_errors:
  "((\<forall>x\<in>set pre. wf_line x) \<and> line_shape m
      \<and> \<not> (k_value m \<noteq> [] \<and> decimal 0 (k_value m) \<le> maxUint64)
     \<longrightarrow> GetInfo now (Inr (concat (map render pre) @ render m @ post))
         = Inl (if k_value m = [] then ErrSyntax else ErrRange))
   \<and> (token_shape k \<and> valid_line (render k) \<and> Atoi (k_value k) = Inl err \<and> parsed (t_l st)
     \<longrightarrow> (\<exists>st'. DataTicker_lines (render k @ rest) st = DataTicker_lines rest st'
              \<and> t_l st' = t_l st + 1 \<and> t_bldr st' = t_bldr st
              \<and> trace st' = trace st @ [SendErr (joe_Error ''mem'' ''convert to int'' err)]))"
proof (intro conjI impI)
  assume a: "(\<forall>x\<in>set pre. wf_line x) \<and> line_shape m
      \<and> \<not> (k_value m \<noteq> [] \<and> decimal 0 (k_value m) \<le> maxUint64)"
  then have pre: "\<forall>x\<in>set pre. wf_line x" and m: "line_shape m" by simp_all
  have "GetInfo_loop (concat (map render pre) @ render m @ post) 0 f
        = Inl (if k_value m = [] then ErrSyntax else ErrRange)" for f
    using a by (simp only: GetInfo_loop_lines [OF pre] GetInfo_loop_render [OF m]) auto
  then show "GetInfo now (Inr (concat (map render pre) @ render m @ post))
         = Inl (if k_value m = [] then ErrSyntax else ErrRange)"
    by (simp add: GetInfo_def)
next
  assume a: "token_shape k \<and> valid_line (render k) \<and> Atoi (k_value k) = Inl err \<and> parsed (t_l st)"
  let ?st' = "st\<lparr>t_l := t_l st + 1, t_pos := length (k_label k) + 1 + k_spaces k,
      t_val := k_value k,
      trace := trace st @ [SendErr (joe_Error ''mem'' ''convert to int'' err)]\<rparr>"
  from a have "DataTicker_lines (render k @ rest) st = DataTicker_lines rest ?st'"
    by (simp add: DataTicker_lines_one DataTicker_line_render)
  then show "\<exists>st'. DataTicker_lines (render k @ rest) st = DataTicker_lines rest st'
              \<and> t_l st' = t_l st + 1 \<and> t_bldr st' = t_bldr st
              \<and> trace st' = trace st @ [SendErr (joe_Error ''mem'' ''convert to int'' err)]"
    by (intro exI [of _ ?st']) simp
qed

text \<open>
  The amended claim at a \<open>MemFree\<close> line without digits in \<open>GetInfo\<close>, and at a \<open>MemFree\<close>
  line with the token \<open>x\<close> as the first line of a sample in \<open>DataTicker\<close>.
\<close>

theorem C3_witness:
  "GetInfo 1000 (Inr ''MemTotal: 1 kB\<newline>MemFree: kB\<newline>Cached: 2 kB\<newline>'') = Inl ErrSyntax
   \<and> (\<exists>st'. DataTicker_lines ''MemFree: x kB\<newline>Cached: 2 kB\<newline>'' ticker_init
             = DataTicker_lines ''Cached: 2 kB\<newline>'' st'
           \<and> t_l st' = 1 \<and> t_bldr st' = NewBuilder
           \<and> trace st' = [SendErr (joe_Error ''mem'' ''convert to int'' ErrSyntax)])"
  using C3_conversion_errors [of
      "[\<lparr>k_label = ''MemTotal'', k_spaces = 1, k_value = ''1'', k_tail = '' kB''\<rparr>]"
      "\<lparr>k_label = ''MemFree'', k_spaces = 1, k_value = [], k_tail = ''kB''\<rparr>"
      1000 "''Cached: 2 kB\<newline>''"
      "\<lparr>k_label = ''MemFree'', k_spaces = 1, k_value = ''x'', k_tail = '' kB''\<rparr>"
      ErrSyntax ticker_init "''Cached: 2 kB\<newline>''"]
  by (simp add: wf_line_def line_shape_def token_shape_def valid_line_def render_def
      is_digit_def maxUint64_def Atoi_def ParseUint_def parsed_def ticker_init_def)

text \<open>
  C3 as stated fails in \<open>GetInfo\<close>: a first line without digits ends the scan by the
  return of line 138, and the \<open>MemFree\<close> line after it is never scanned.
\<close>

theorem C3_counterexample:
  "GetInfo 1000 (Inr ''MemTotal: kB\<newline>MemFree: 5 kB\<newline>'') = Inl ErrSyntax"
  by (simp add: GetInfo_eval)






end
